theory Spec2Isabelle
  imports Complex_Main
begin

section \<open>Disk model maps of \<^verbatim>\<open>spectral.c\<close>\<close>

text \<open>
  The C file computes square maps of a circumstellar disk: a coordinate grid, the radius of
  every pixel, an azimuthal modulation, the optical thickness and the blackbody intensity.

  Conventions of the embedding:
  \<^item> \<^verbatim>\<open>long long\<close> is \<open>int\<close>; the arrays are far too small for a 64-bit counter to wrap.
  \<^item> An array is a list, a \<open>dim\<times>dim\<close> plane is the row-major list of its \<open>dim * dim\<close> cells,
    so that cell \<open>(i, j)\<close> is at index \<open>i * dim + j\<close>, as in the code.
  \<^item> \<^verbatim>\<open>for (i = 0; i < n; ++i)\<close> is a recursive function on the counter \<open>i\<close>, which
    writes one cell per iteration with \<open>xs[i := v]\<close>.
  \<^item> Numbers have two readings. In the \<^emph>\<open>exact reading\<close> a \<^verbatim>\<open>double\<close> is a real number and
    the operations are those of the reals; it is used where the statement is an identity
    between formulas that double rounding does not disturb (grid, radius, intensity, the
    bound of the modulation, the constant \<open>c2\<close>). Single precision is rounded in this
    reading where a value depends on it: the quotient that \<^verbatim>\<open>linspace\<close> computes is
    rounded to 24 bits. The product \<open>dim * pixel_size\<close> that \<^verbatim>\<open>grid\<close> passes on is kept
    exact, and the statements about \<^verbatim>\<open>grid\<close> are relative to the axis it builds. Overflow
    of single precision to infinity is outside this reading.
    In the \<^emph>\<open>binary64 reading\<close> a \<^verbatim>\<open>double\<close> is a value of the type \<open>double\<close> below
    (finite with a sign, infinite, or NaN) and every operation rounds to nearest, ties to
    even, overflows to infinity and keeps the sign of zero; it is used where saturation,
    overflow or the sign of zero decide the statement (optical thickness, monotonicity of
    \<open>bb\<close>, the modulation at the origin). The library functions \<^verbatim>\<open>exp\<close>, \<^verbatim>\<open>cos\<close>,
    \<^verbatim>\<open>pow\<close> and \<^verbatim>\<open>atan2\<close> are taken as correctly rounded there.
  \<^item> A decimal literal stands for its decimal value, rounded where the reading rounds.
\<close>

subsection \<open>Physical constants\<close>

definition c :: real where
  "c = 2.99792458 * 10 ^ 10"

definition c2 :: real where
  "c2 = 8.98755179 * 10 ^ 20"

definition h :: real where
  "h = 6.62607015 / 10 ^ 27"

definition kb :: real where
  "kb = 1.380649 / 10 ^ 16"

definition bb_to_jy :: real where
  "bb_to_jy = 1.0 * 10 ^ 23"

subsection \<open>Rounding to a binary floating-point format\<close>

text \<open>
  \<open>rne\<close> rounds a real to the nearest integer, a tie to the even one. \<open>fl p emin x\<close> rounds
  \<open>x\<close> to \<open>p\<close> significant bits with the smallest exponent \<open>emin\<close> of a unit in the last place
  (so that small values are subnormal), with no bound on the exponent above. Single
  precision is \<open>fl 24 (-149)\<close>, double precision \<open>fl 53 (-1074)\<close>.
\<close>

definition rne :: "real \<Rightarrow> int" where
  "rne x =
     (let f = \<lfloor>x\<rfloor>; d = x - of_int f
      in if d < 1 / 2 then f
         else if 1 / 2 < d then f + 1
         else if even f then f else f + 1)"

definition ulp_exp :: "nat \<Rightarrow> int \<Rightarrow> real \<Rightarrow> int" where
  "ulp_exp p emin x = max emin (\<lfloor>log 2 \<bar>x\<bar>\<rfloor> - int p + 1)"

definition fl :: "nat \<Rightarrow> int \<Rightarrow> real \<Rightarrow> real" where
  "fl p emin x =
     (if x = 0 then 0
      else of_int (rne (x / 2 powi ulp_exp p emin x)) * 2 powi ulp_exp p emin x)"

definition rnd32 :: "real \<Rightarrow> real" where
  "rnd32 x = fl 24 (- 149) x"

subsection \<open>Values and operations of binary64\<close>

text \<open>
  A finite value is a sign (\<open>True\<close> for minus) and a magnitude, so that \<open>Finite True 0\<close> is
  the negative zero. A rounded magnitude of \<open>2\<^sup>1\<^sup>0\<^sup>2\<^sup>4\<close> or more is an overflow and gives an
  infinity. The special cases of the operations are those of IEEE 754 and of Annex F of the
  C standard.
\<close>

datatype double = Finite bool real | Infinity bool | NaN

definition overflow_threshold :: real where
  "overflow_threshold = 2 powi 1024"

definition round_double :: "bool \<Rightarrow> real \<Rightarrow> double" where
  "round_double s m =
     (let r = fl 53 (- 1074) m in if overflow_threshold \<le> r then Infinity s else Finite s r)"

definition double_of_real :: "real \<Rightarrow> double" where
  "double_of_real x = round_double (x < 0) \<bar>x\<bar>"

fun valof :: "double \<Rightarrow> real" where
  "valof (Finite s m) = (if s then - m else m)"
| "valof (Infinity s) = 0"
| "valof NaN = 0"


fun is_finite :: "double \<Rightarrow> bool" where
  "is_finite (Finite s m) = (0 \<le> m)"
| "is_finite (Infinity s) = False"
| "is_finite NaN = False"

fun wf_double :: "double \<Rightarrow> bool" where
  "wf_double (Finite s m) = (0 \<le> m)"
| "wf_double (Infinity s) = True"
| "wf_double NaN = False"

fun nonneg :: "double \<Rightarrow> bool" where
  "nonneg (Finite s m) = (\<not> s \<and> 0 \<le> m)"
| "nonneg (Infinity s) = (\<not> s)"
| "nonneg NaN = False"

fun pos_between :: "double \<Rightarrow> int \<Rightarrow> int \<Rightarrow> bool" where
  "pos_between (Finite s m) a b = (\<not> s \<and> 2 powi a \<le> m \<and> m \<le> 2 powi b)"
| "pos_between (Infinity s) a b = False"
| "pos_between NaN a b = False"

fun double_le :: "double \<Rightarrow> double \<Rightarrow> bool" where
  "double_le NaN y = False"
| "double_le x NaN = False"
| "double_le (Infinity s) (Infinity t) = (s \<or> \<not> t)"
| "double_le (Infinity s) (Finite t b) = s"
| "double_le (Finite s a) (Infinity t) = (\<not> t)"
| "double_le (Finite s a) (Finite t b) = (valof (Finite s a) \<le> valof (Finite t b))"

definition double_lt :: "double \<Rightarrow> double \<Rightarrow> bool" where
  "double_lt x y = (double_le x y \<and> \<not> double_le y x)"

fun dneg :: "double \<Rightarrow> double" where
  "dneg (Finite s m) = Finite (\<not> s) m"
| "dneg (Infinity s) = Infinity (\<not> s)"
| "dneg NaN = NaN"

fun dmul :: "double \<Rightarrow> double \<Rightarrow> double" where
  "dmul (Finite s a) (Finite t b) = round_double (s \<noteq> t) (a * b)"
| "dmul (Finite s a) (Infinity t) = (if a = 0 then NaN else Infinity (s \<noteq> t))"
| "dmul (Infinity s) (Finite t b) = (if b = 0 then NaN else Infinity (s \<noteq> t))"
| "dmul (Infinity s) (Infinity t) = Infinity (s \<noteq> t)"
| "dmul NaN y = NaN"
| "dmul x NaN = NaN"

fun ddiv :: "double \<Rightarrow> double \<Rightarrow> double" where
  "ddiv (Finite s a) (Finite t b) =
     (if b = 0 then (if a = 0 then NaN else Infinity (s \<noteq> t))
      else round_double (s \<noteq> t) (a / b))"
| "ddiv (Finite s a) (Infinity t) = Finite (s \<noteq> t) 0"
| "ddiv (Infinity s) (Finite t b) = Infinity (s \<noteq> t)"
| "ddiv (Infinity s) (Infinity t) = NaN"
| "ddiv NaN y = NaN"
| "ddiv x NaN = NaN"

fun dadd :: "double \<Rightarrow> double \<Rightarrow> double" where
  "dadd (Finite s a) (Finite t b) =
     (let v = valof (Finite s a) + valof (Finite t b)
      in if v = 0 then Finite (s \<and> t) 0 else double_of_real v)"
| "dadd (Finite s a) (Infinity t) = Infinity t"
| "dadd (Infinity s) (Finite t b) = Infinity s"
| "dadd (Infinity s) (Infinity t) = (if s = t then Infinity s else NaN)"
| "dadd NaN y = NaN"
| "dadd x NaN = NaN"

definition dsub :: "double \<Rightarrow> double \<Rightarrow> double" where
  "dsub x y = dadd x (dneg y)"

fun dexp :: "double \<Rightarrow> double" where
  "dexp (Finite s m) = round_double False (exp (valof (Finite s m)))"
| "dexp (Infinity s) = (if s then Finite False 0 else Infinity False)"
| "dexp NaN = NaN"

fun dcos :: "double \<Rightarrow> double" where
  "dcos (Finite s m) = double_of_real (cos m)"
| "dcos (Infinity s) = NaN"
| "dcos NaN = NaN"

fun dpow :: "double \<Rightarrow> nat \<Rightarrow> double" where
  "dpow (Finite s m) n = round_double (s \<and> odd n) (m ^ n)"
| "dpow (Infinity s) n = (if n = 0 then Finite False 1 else Infinity (s \<and> odd n))"
| "dpow NaN n = (if n = 0 then Finite False 1 else NaN)"

fun datan2 :: "double \<Rightarrow> double \<Rightarrow> double" where
  "datan2 (Finite s a) (Finite t b) =
     round_double s
       (if b = 0 then (if a = 0 then (if t then pi else 0) else pi / 2)
        else if t then pi - arctan (a / b) else arctan (a / b))"
| "datan2 (Finite s a) (Infinity t) = (if t then round_double s pi else Finite s 0)"
| "datan2 (Infinity s) (Finite t b) = round_double s (pi / 2)"
| "datan2 (Infinity s) (Infinity t) = round_double s (if t then 3 * pi / 4 else pi / 4)"
| "datan2 NaN x = NaN"
| "datan2 y NaN = NaN"

subsection \<open>Allocation\<close>

text \<open>
  \<^verbatim>\<open>malloc(n * sizeof(double))\<close>: a fresh array of \<open>n\<close> cells. C leaves the content
  indeterminate; the model fills it with \<open>0\<close>. A negative count gives no cell.
  The lemmas \<open>nth_*_loop\<close> below show that every loop of the file overwrites each cell it
  returns, whatever the array held before.
\<close>

definition malloc_double :: "int \<Rightarrow> real list" where
  "malloc_double n = replicate (nat n) 0"

definition malloc_binary64 :: "int \<Rightarrow> double list" where
  "malloc_binary64 n = replicate (nat n) (Finite False 0)"

subsection \<open>linspace\<close>

text \<open>
  \<^verbatim>\<open>double step = (stop - start)/dim;\<close> with \<^verbatim>\<open>float\<close> operands: the difference is a
  single-precision subtraction, \<open>dim\<close> is converted to \<^verbatim>\<open>float\<close> and the quotient is a
  single-precision division; the conversion of the result to \<^verbatim>\<open>double\<close> is exact.
  The parameters \<open>start\<close> and \<open>stop\<close> are the \<^verbatim>\<open>float\<close> values the function receives.
  Then \<^verbatim>\<open>for (i = 0; i < dim; ++i) linear_grid[i] = (start + i * step) * factor;\<close>
\<close>

function linspace_loop :: "real \<Rightarrow> real \<Rightarrow> real \<Rightarrow> int \<Rightarrow> nat \<Rightarrow> real list \<Rightarrow> real list" where
  "linspace_loop start step factor dim' i linear_grid =
     (if int i < dim'
      then linspace_loop start step factor dim' (Suc i)
             (linear_grid[i := (start + real i * step) * factor])
      else linear_grid)"
  by pat_completeness auto
termination
  by (relation "measure (\<lambda>(start, step, factor, dim', i, linear_grid). nat dim' - i)") auto

declare linspace_loop.simps [simp del]

definition linspace :: "real \<Rightarrow> real \<Rightarrow> int \<Rightarrow> real \<Rightarrow> real list" where
  "linspace start stop dim' factor =
     (let step = rnd32 (rnd32 (stop - start) / rnd32 (real_of_int dim'));
          linear_grid = malloc_double dim'
      in linspace_loop start step factor dim' 0 linear_grid)"

subsection \<open>meshgrid\<close>

text \<open>
  The inner loop over \<open>j\<close> writes row \<open>i\<close> of the mesh; \<open>axis = 0\<close> copies \<open>linear_grid[i]\<close>,
  any other \<open>axis\<close> copies \<open>linear_grid[j]\<close>.
\<close>

function meshgrid_inner :: "real list \<Rightarrow> int \<Rightarrow> int \<Rightarrow> nat \<Rightarrow> nat \<Rightarrow> real list \<Rightarrow> real list" where
  "meshgrid_inner linear_grid dim' axis i j mesh =
     (if int j < dim'
      then (let temp = (if axis = 0 then linear_grid ! i else linear_grid ! j)
            in meshgrid_inner linear_grid dim' axis i (Suc j) (mesh[i * nat dim' + j := temp]))
      else mesh)"
  by pat_completeness auto
termination
  by (relation "measure (\<lambda>(linear_grid, dim', axis, i, j, mesh). nat dim' - j)") auto

declare meshgrid_inner.simps [simp del]

function meshgrid_outer :: "real list \<Rightarrow> int \<Rightarrow> int \<Rightarrow> nat \<Rightarrow> real list \<Rightarrow> real list" where
  "meshgrid_outer linear_grid dim' axis i mesh =
     (if int i < dim'
      then meshgrid_outer linear_grid dim' axis (Suc i)
             (meshgrid_inner linear_grid dim' axis i 0 mesh)
      else mesh)"
  by pat_completeness auto
termination
  by (relation "measure (\<lambda>(linear_grid, dim', axis, i, mesh). nat dim' - i)") auto

declare meshgrid_outer.simps [simp del]

definition meshgrid :: "real list \<Rightarrow> int \<Rightarrow> int \<Rightarrow> real list" where
  "meshgrid linear_grid dim' axis =
     (let mesh = malloc_double (dim' * dim')
      in meshgrid_outer linear_grid dim' axis 0 mesh)"

subsection \<open>grid\<close>

record Grid =
  xx :: "real list"
  yy :: "real list"

text \<open>
  The body of the elliptic loop is two assignments in sequence: the second one reads the
  cell of \<open>xx\<close> that the first one has just written.
\<close>

function grid_loop :: "real \<Rightarrow> real \<Rightarrow> int \<Rightarrow> nat \<Rightarrow> Grid \<Rightarrow> Grid" where
  "grid_loop pa elong dim' i grid =
     (if int i < dim' * dim'
      then (let grid1 = grid\<lparr>xx := (xx grid)[i := xx grid ! i * cos pa - yy grid ! i * sin pa]\<rparr>;
                grid2 = grid1\<lparr>yy := (yy grid1)[i := (xx grid1 ! i * sin pa + yy grid1 ! i * cos pa) / elong]\<rparr>
            in grid_loop pa elong dim' (Suc i) grid2)
      else grid)"
  by pat_completeness auto
termination
  by (relation "measure (\<lambda>(pa, elong, dim', i, grid). nat (dim' * dim') - i)") auto

declare grid_loop.simps [simp del]

definition grid :: "int \<Rightarrow> real \<Rightarrow> real \<Rightarrow> real \<Rightarrow> int \<Rightarrow> Grid" where
  "grid dim' pixel_size pa elong elliptic =
     (let x = linspace (- 0.5) 0.5 dim' (real_of_int dim' * pixel_size);
          grid0 = \<lparr>xx = meshgrid x dim' 1, yy = meshgrid x dim' 0\<rparr>
      in if elliptic \<noteq> 0 then grid_loop pa elong dim' 0 grid0 else grid0)"

subsection \<open>radius\<close>

text \<open>
  The parameters \<^verbatim>\<open>xx\<close> and \<^verbatim>\<open>yy\<close> of \<^verbatim>\<open>radius\<close> and \<^verbatim>\<open>azimuthal_modulation\<close> are
  written \<open>xs\<close> and \<open>ys\<close>, since \<open>xx\<close> and \<open>yy\<close> are the fields of \<open>Grid\<close>.
\<close>

function radius_loop :: "real list \<Rightarrow> real list \<Rightarrow> int \<Rightarrow> nat \<Rightarrow> real list \<Rightarrow> real list" where
  "radius_loop xs ys dim' i radius =
     (if int i < dim' * dim'
      then radius_loop xs ys dim' (Suc i) (radius[i := sqrt ((xs ! i) ^ 2 + (ys ! i) ^ 2)])
      else radius)"
  by pat_completeness auto
termination
  by (relation "measure (\<lambda>(xs, ys, dim', i, radius). nat (dim' * dim') - i)") auto

declare radius_loop.simps [simp del]

definition radius :: "real list \<Rightarrow> real list \<Rightarrow> int \<Rightarrow> real list" where
  "radius xs ys dim' = radius_loop xs ys dim' 0 (malloc_double (dim' * dim'))"

subsection \<open>azimuthal\_modulation\<close>

text \<open>
  \<^verbatim>\<open>atan2\<close> is the function of the C library, not code of this file. On the reals it is
  the angle of the point \<open>(x, y)\<close> in \<open>(-\<pi>, \<pi>]\<close>, and \<open>0\<close> at the origin (the value
  the C standard gives for two positive zeros).
\<close>

definition atan2 :: "real \<Rightarrow> real \<Rightarrow> real" where
  "atan2 y x =
     (if 0 < x then arctan (y / x)
      else if x < 0 then (if 0 \<le> y then arctan (y / x) + pi else arctan (y / x) - pi)
      else if 0 < y then pi / 2
      else if y < 0 then - (pi / 2)
      else 0)"

function azimuthal_modulation_loop ::
  "real list \<Rightarrow> real list \<Rightarrow> real \<Rightarrow> real \<Rightarrow> int \<Rightarrow> nat \<Rightarrow> real list \<Rightarrow> real list" where
  "azimuthal_modulation_loop xs ys a phi dim' i modulation =
     (if int i < dim' * dim'
      then azimuthal_modulation_loop xs ys a phi dim' (Suc i)
             (modulation[i := a * cos (atan2 (ys ! i) (xs ! i) - phi)])
      else modulation)"
  by pat_completeness auto
termination
  by (relation "measure (\<lambda>(xs, ys, a, phi, dim', i, modulation). nat (dim' * dim') - i)") auto

declare azimuthal_modulation_loop.simps [simp del]

definition azimuthal_modulation :: "real list \<Rightarrow> real list \<Rightarrow> real \<Rightarrow> real \<Rightarrow> int \<Rightarrow> real list" where
  "azimuthal_modulation xs ys a phi dim' =
     azimuthal_modulation_loop xs ys a phi dim' 0 (malloc_double (dim' * dim'))"

subsection \<open>optical\_thickness\<close>

text \<open>
  \<^verbatim>\<open>1.0-exp(-surface_density_profile[i]*opacity)\<close> in the binary64 reading: the unary
  minus binds tighter than the product, so the exponent is \<open>(- \<Sigma>) * \<kappa>\<close>; the \<^verbatim>\<open>float\<close>
  opacity is converted to \<^verbatim>\<open>double\<close> without change.
\<close>

function optical_thickness_loop ::
  "double list \<Rightarrow> double \<Rightarrow> int \<Rightarrow> nat \<Rightarrow> double list \<Rightarrow> double list" where
  "optical_thickness_loop surface_density_profile opacity dim' i optical_thickness =
     (if int i < dim' * dim'
      then optical_thickness_loop surface_density_profile opacity dim' (Suc i)
             (optical_thickness[i := dsub (double_of_real 1.0)
                (dexp (dmul (dneg (surface_density_profile ! i)) opacity))])
      else optical_thickness)"
  by pat_completeness auto
termination
  by (relation "measure (\<lambda>(surface_density_profile, opacity, dim', i, optical_thickness).
        nat (dim' * dim') - i)") auto

declare optical_thickness_loop.simps [simp del]

definition optical_thickness :: "double list \<Rightarrow> double \<Rightarrow> int \<Rightarrow> double list" where
  "optical_thickness surface_density_profile opacity dim' =
     optical_thickness_loop surface_density_profile opacity dim' 0 (malloc_binary64 (dim' * dim'))"

subsection \<open>bb and intensity\<close>

text \<open>\<^verbatim>\<open>pow(nu, 3)\<close> and \<^verbatim>\<open>pow(pixel_size, 2)\<close> have a small integer exponent: a power.\<close>

definition bb :: "real \<Rightarrow> real \<Rightarrow> real" where
  "bb temperature wavelength =
     (let nu = c / wavelength
      in (2.0 * h * nu ^ 3 / c2) * (1.0 / (exp (h * nu / (kb * temperature)) - 1.0)))"

function intensity_loop :: "real list \<Rightarrow> real \<Rightarrow> real \<Rightarrow> int \<Rightarrow> nat \<Rightarrow> real list \<Rightarrow> real list" where
  "intensity_loop temperature_profile wavelength pixel_size dim' i intensity =
     (if int i < dim' * dim'
      then intensity_loop temperature_profile wavelength pixel_size dim' (Suc i)
             (intensity[i := bb (temperature_profile ! i) wavelength * pixel_size ^ 2 * bb_to_jy])
      else intensity)"
  by pat_completeness auto
termination
  by (relation "measure (\<lambda>(temperature_profile, wavelength, pixel_size, dim', i, intensity).
        nat (dim' * dim') - i)") auto

declare intensity_loop.simps [simp del]

definition intensity :: "real list \<Rightarrow> real \<Rightarrow> real \<Rightarrow> int \<Rightarrow> real list" where
  "intensity temperature_profile wavelength pixel_size dim' =
     intensity_loop temperature_profile wavelength pixel_size dim' 0 (malloc_double (dim' * dim'))"

subsection \<open>Planck's law as the specification writes it\<close>

text \<open>
  \<open>B(T, \<lambda>) = (2 h \<nu>\<^sup>3 / c\<^sup>2) \<cdot> 1 / (exp (h \<nu> / (k T)) - 1)\<close> with \<open>\<nu> = c / \<lambda>\<close>: the
  denominator is the square of the speed of light. To be compared with \<open>bb\<close>, which
  divides by the constant \<open>c2\<close>.
\<close>

definition planck_spec :: "real \<Rightarrow> real \<Rightarrow> real" where
  "planck_spec T lam =
     (let nu = c / lam
      in (2 * h * nu ^ 3 / c\<^sup>2) * (1 / (exp (h * nu / (kb * T)) - 1)))"

subsection \<open>bb and azimuthal\_modulation in the binary64 reading\<close>

text \<open>
  The same two expressions with every operation rounded. \<^verbatim>\<open>2.0*h*pow(nu, 3)/c2\<close>
  associates to the left, \<^verbatim>\<open>h*nu/(kb*temperature)\<close> is a product divided by a product.
\<close>

definition bb_double :: "double \<Rightarrow> double \<Rightarrow> double" where
  "bb_double temperature wavelength =
     (let nu = ddiv (double_of_real c) wavelength
      in dmul (ddiv (dmul (dmul (double_of_real 2.0) (double_of_real h)) (dpow nu 3))
                    (double_of_real c2))
              (ddiv (double_of_real 1.0)
                    (dsub (dexp (ddiv (dmul (double_of_real h) nu)
                                      (dmul (double_of_real kb) temperature)))
                          (double_of_real 1.0))))"

function azimuthal_modulation_double_loop ::
  "double list \<Rightarrow> double list \<Rightarrow> double \<Rightarrow> double \<Rightarrow> int \<Rightarrow> nat \<Rightarrow> double list \<Rightarrow> double list" where
  "azimuthal_modulation_double_loop xs ys a phi dim' i modulation =
     (if int i < dim' * dim'
      then azimuthal_modulation_double_loop xs ys a phi dim' (Suc i)
             (modulation[i := dmul a (dcos (dsub (datan2 (ys ! i) (xs ! i)) phi))])
      else modulation)"
  by pat_completeness auto
termination
  by (relation "measure (\<lambda>(xs, ys, a, phi, dim', i, modulation). nat (dim' * dim') - i)") auto

declare azimuthal_modulation_double_loop.simps [simp del]


text \<open>The expression of one pixel, for the statements below.\<close>

abbreviation px :: "double \<Rightarrow> double \<Rightarrow> double" where
  "px S k \<equiv> dsub (double_of_real 1.0) (dexp (dmul (dneg S) k))"


section \<open>What the loops compute\<close>

text \<open>
  Each loop keeps the length of the array it fills and, started at counter \<open>i\<close>, writes the
  cells from \<open>i\<close> up to its bound; the cells outside that range keep their content.
\<close>

lemma length_malloc_double: "length (malloc_double n) = nat n"
  by (simp add: malloc_double_def)

lemma length_malloc_binary64: "length (malloc_binary64 n) = nat n"
  by (simp add: malloc_binary64_def)





lemma length_meshgrid_inner:
  "length (meshgrid_inner lg dim' axis i j mesh) = length mesh"
  by (induction lg dim' axis i j mesh rule: meshgrid_inner.induct)
     (subst meshgrid_inner.simps, simp add: Let_def)

lemma nth_meshgrid_inner:
  "k < length mesh \<Longrightarrow>
   meshgrid_inner lg dim' axis i j mesh ! k =
     (if i * nat dim' + j \<le> k \<and> k < (i + 1) * nat dim'
      then (if axis = 0 then lg ! i else lg ! (k - i * nat dim')) else mesh ! k)"
proof (induction lg dim' axis i j mesh rule: meshgrid_inner.induct)
  case (1 lg dim' axis i j mesh)
  show ?case
  proof (cases "int j < dim'")
    case True
    then have jn: "j < nat dim'" by simp
    show ?thesis
    proof (cases "k = i * nat dim' + j")
      case True
      with 1 \<open>int j < dim'\<close> jn show ?thesis
        by (subst meshgrid_inner.simps) (auto simp: Let_def)
    next
      case False
      with 1 \<open>int j < dim'\<close> jn show ?thesis
        by (subst meshgrid_inner.simps) (auto simp: Let_def)
    qed
  next
    case False
    then show ?thesis
      by (subst meshgrid_inner.simps) auto
  qed
qed

lemma length_meshgrid_outer:
  "length (meshgrid_outer lg dim' axis i mesh) = length mesh"
  by (induction lg dim' axis i mesh rule: meshgrid_outer.induct)
     (subst meshgrid_outer.simps, simp add: length_meshgrid_inner)

lemma nth_meshgrid_outer:
  "k < length mesh \<Longrightarrow>
   meshgrid_outer lg dim' axis i mesh ! k =
     (if i * nat dim' \<le> k \<and> k < nat dim' * nat dim'
      then (if axis = 0 then lg ! (k div nat dim') else lg ! (k mod nat dim')) else mesh ! k)"
proof (induction lg dim' axis i mesh rule: meshgrid_outer.induct)
  case (1 lg dim' axis i mesh)
  show ?case
  proof (cases "int i < dim'")
    case True
    then have pos: "0 < nat dim'" and i: "i < nat dim'" by auto
    show ?thesis
    proof (cases "i * nat dim' \<le> k \<and> k < (i + 1) * nat dim'")
      case row: True
      then have d: "k div nat dim' = i"
        using pos by (metis div_nat_eqI mult.commute Suc_eq_plus1)
      have m: "k mod nat dim' = k - i * nat dim'"
        using d by (metis minus_mult_div_eq_mod mult.commute)
      from row i have "k < nat dim' * nat dim'"
        by (metis Suc_eq_plus1 Suc_leI less_le_trans mult_le_mono1)
      with 1 True row d m show ?thesis
        by (subst meshgrid_outer.simps) (simp add: length_meshgrid_inner nth_meshgrid_inner)
    next
      case False
      with 1 True show ?thesis
        by (subst meshgrid_outer.simps) (auto simp: length_meshgrid_inner nth_meshgrid_inner)
    qed
  next
    case False
    then have "nat dim' \<le> i" by simp
    then have "nat dim' * nat dim' \<le> i * nat dim'" by (rule mult_le_mono1)
    then have "\<not> (i * nat dim' \<le> k \<and> k < nat dim' * nat dim')" by linarith
    with False show ?thesis
      by (subst meshgrid_outer.simps) auto
  qed
qed


lemma length_radius_loop:
  "length (radius_loop xs ys dim' i a) = length a"
  by (induction xs ys dim' i a rule: radius_loop.induct)
     (subst radius_loop.simps, simp)

lemma nth_radius_loop:
  "k < length a \<Longrightarrow>
   radius_loop xs ys dim' i a ! k =
     (if i \<le> k \<and> int k < dim' * dim' then sqrt ((xs ! k) ^ 2 + (ys ! k) ^ 2) else a ! k)"
proof (induction xs ys dim' i a rule: radius_loop.induct)
  case (1 xs ys dim' i a)
  show ?case
  proof (cases "int i < dim' * dim'")
    case True
    show ?thesis
    proof (cases "k = i")
      case same: True
      with 1 True show ?thesis
        by (subst radius_loop.simps) simp
    next
      case False
      with 1 True show ?thesis
        by (subst radius_loop.simps) auto
    qed
  next
    case False
    then show ?thesis
      by (subst radius_loop.simps) auto
  qed
qed

lemma length_azimuthal_modulation_loop:
  "length (azimuthal_modulation_loop xs ys a0 phi dim' i a) = length a"
  by (induction xs ys a0 phi dim' i a rule: azimuthal_modulation_loop.induct)
     (subst azimuthal_modulation_loop.simps, simp)

lemma nth_azimuthal_modulation_loop:
  "k < length a \<Longrightarrow>
   azimuthal_modulation_loop xs ys a0 phi dim' i a ! k =
     (if i \<le> k \<and> int k < dim' * dim' then a0 * cos (atan2 (ys ! k) (xs ! k) - phi) else a ! k)"
proof (induction xs ys a0 phi dim' i a rule: azimuthal_modulation_loop.induct)
  case (1 xs ys a0 phi dim' i a)
  show ?case
  proof (cases "int i < dim' * dim'")
    case True
    show ?thesis
    proof (cases "k = i")
      case same: True
      with 1 True show ?thesis
        by (subst azimuthal_modulation_loop.simps) simp
    next
      case False
      with 1 True show ?thesis
        by (subst azimuthal_modulation_loop.simps) auto
    qed
  next
    case False
    then show ?thesis
      by (subst azimuthal_modulation_loop.simps) auto
  qed
qed

lemma length_azimuthal_modulation_double_loop:
  "length (azimuthal_modulation_double_loop xs ys a0 phi dim' i a) = length a"
  by (induction xs ys a0 phi dim' i a rule: azimuthal_modulation_double_loop.induct)
     (subst azimuthal_modulation_double_loop.simps, simp)


lemma length_optical_thickness_loop:
  "length (optical_thickness_loop sdp opacity dim' i a) = length a"
  by (induction sdp opacity dim' i a rule: optical_thickness_loop.induct)
     (subst optical_thickness_loop.simps, simp)

lemma nth_optical_thickness_loop:
  "k < length a \<Longrightarrow>
   optical_thickness_loop sdp opacity dim' i a ! k =
     (if i \<le> k \<and> int k < dim' * dim' then px (sdp ! k) opacity else a ! k)"
proof (induction sdp opacity dim' i a rule: optical_thickness_loop.induct)
  case (1 sdp opacity dim' i a)
  show ?case
  proof (cases "int i < dim' * dim'")
    case True
    show ?thesis
    proof (cases "k = i")
      case same: True
      with 1 True show ?thesis
        by (subst optical_thickness_loop.simps) simp
    next
      case False
      with 1 True show ?thesis
        by (subst optical_thickness_loop.simps) auto
    qed
  next
    case False
    then show ?thesis
      by (subst optical_thickness_loop.simps) auto
  qed
qed

lemma length_intensity_loop:
  "length (intensity_loop tp wavelength pixel_size dim' i a) = length a"
  by (induction tp wavelength pixel_size dim' i a rule: intensity_loop.induct)
     (subst intensity_loop.simps, simp)

lemma nth_intensity_loop:
  "k < length a \<Longrightarrow>
   intensity_loop tp wavelength pixel_size dim' i a ! k =
     (if i \<le> k \<and> int k < dim' * dim' then bb (tp ! k) wavelength * pixel_size ^ 2 * bb_to_jy else a ! k)"
proof (induction tp wavelength pixel_size dim' i a rule: intensity_loop.induct)
  case (1 tp wavelength pixel_size dim' i a)
  show ?case
  proof (cases "int i < dim' * dim'")
    case True
    show ?thesis
    proof (cases "k = i")
      case same: True
      with 1 True show ?thesis
        by (subst intensity_loop.simps) simp
    next
      case False
      with 1 True show ?thesis
        by (subst intensity_loop.simps) auto
    qed
  next
    case False
    then show ?thesis
      by (subst intensity_loop.simps) auto
  qed
qed

lemma length_xx_grid_loop:
  "length (xx (grid_loop pa elong dim' i g)) = length (xx g)"
  by (induction pa elong dim' i g rule: grid_loop.induct)
     (subst grid_loop.simps, simp add: Let_def)

lemma length_yy_grid_loop:
  "length (yy (grid_loop pa elong dim' i g)) = length (yy g)"
  by (induction pa elong dim' i g rule: grid_loop.induct)
     (subst grid_loop.simps, simp add: Let_def)

lemma nth_xx_grid_loop:
  "k < length (xx g) \<Longrightarrow>
   xx (grid_loop pa elong dim' i g) ! k =
     (if i \<le> k \<and> int k < dim' * dim'
      then xx g ! k * cos pa - yy g ! k * sin pa else xx g ! k)"
proof (induction pa elong dim' i g rule: grid_loop.induct)
  case (1 pa elong dim' i g)
  show ?case
  proof (cases "int i < dim' * dim'")
    case True
    show ?thesis
    proof (cases "k = i")
      case same: True
      with 1 True show ?thesis
        by (subst grid_loop.simps) (simp add: Let_def)
    next
      case False
      with 1 True show ?thesis
        by (subst grid_loop.simps) (auto simp: Let_def)
    qed
  next
    case False
    then show ?thesis
      by (subst grid_loop.simps) auto
  qed
qed

lemma nth_yy_grid_loop:
  "k < length (xx g) \<Longrightarrow> k < length (yy g) \<Longrightarrow>
   yy (grid_loop pa elong dim' i g) ! k =
     (if i \<le> k \<and> int k < dim' * dim'
      then ((xx g ! k * cos pa - yy g ! k * sin pa) * sin pa + yy g ! k * cos pa) / elong
      else yy g ! k)"
proof (induction pa elong dim' i g rule: grid_loop.induct)
  case (1 pa elong dim' i g)
  show ?case
  proof (cases "int i < dim' * dim'")
    case True
    show ?thesis
    proof (cases "k = i")
      case same: True
      with 1 True show ?thesis
        by (subst grid_loop.simps) (simp add: Let_def)
    next
      case False
      with 1 True show ?thesis
        by (subst grid_loop.simps) (auto simp: Let_def)
    qed
  next
    case False
    then show ?thesis
      by (subst grid_loop.simps) auto
  qed
qed

lemma length_meshgrid: "length (meshgrid lg dim' axis) = nat (dim' * dim')"
  by (simp add: meshgrid_def length_meshgrid_outer length_malloc_double)

lemma nat_square: "0 \<le> d \<Longrightarrow> nat (d * d) = nat d * nat d"
  by (simp add: nat_mult_distrib)

lemma nth_meshgrid:
  assumes "k < nat dim' * nat dim'"
  shows "meshgrid lg dim' axis ! k =
           (if axis = 0 then lg ! (k div nat dim') else lg ! (k mod nat dim'))"
proof -
  from assms have "0 \<le> dim'" by (cases "0 \<le> dim'") simp_all
  then have "nat (dim' * dim') = nat dim' * nat dim'" by (rule nat_square)
  with assms show ?thesis
    by (simp add: meshgrid_def nth_meshgrid_outer length_malloc_double)
qed

lemma nth_meshgrid_cell:
  assumes "i < nat dim'" "j < nat dim'"
  shows "meshgrid lg dim' axis ! (i * nat dim' + j) = (if axis = 0 then lg ! i else lg ! j)"
proof -
  have "i * nat dim' + j < nat dim' * nat dim'"
  proof -
    have "i * nat dim' + j < i * nat dim' + nat dim'" using assms by simp
    also have "\<dots> = Suc i * nat dim'" by simp
    also have "\<dots> \<le> nat dim' * nat dim'" using assms by (intro mult_le_mono1) simp
    finally show ?thesis .
  qed
  then show ?thesis using assms by (simp add: nth_meshgrid)
qed

section \<open>Rounding: monotonicity and exactly representable values\<close>

text \<open>
  Rounding is monotone, odd, and leaves a value of the format unchanged; between two powers
  of two it stays between them. On this rest the bounds of the rounded operations below.
\<close>

subsection \<open>Round to nearest, ties to even\<close>

lemma rne_of_int [simp]: "rne (of_int n) = n"
  by (simp add: rne_def)

lemma rne_lower: "x - 1 / 2 \<le> of_int (rne x)"
  unfolding rne_def Let_def by (auto; linarith)

lemma rne_upper: "of_int (rne x) \<le> x + 1 / 2"
  unfolding rne_def Let_def by (auto; linarith)

lemma rne_mono: assumes "x \<le> y" shows "rne x \<le> rne y"
proof (cases "\<lfloor>x\<rfloor> = \<lfloor>y\<rfloor>")
  case True
  with assms show ?thesis unfolding rne_def Let_def by auto
next
  case False
  with assms have "\<lfloor>x\<rfloor> < \<lfloor>y\<rfloor>" by (simp add: floor_mono order_less_le)
  then have "\<lfloor>x\<rfloor> + 1 \<le> \<lfloor>y\<rfloor>" by simp
  moreover have "rne x \<le> \<lfloor>x\<rfloor> + 1" unfolding rne_def Let_def by auto
  moreover have "\<lfloor>y\<rfloor> \<le> rne y" unfolding rne_def Let_def by auto
  ultimately show ?thesis by linarith
qed

lemma rne_minus: "rne (- x) = - rne x"
proof (cases "x \<in> \<int>")
  case True
  then obtain n where "x = of_int n" by (auto elim: Ints_cases)
  then show ?thesis by (simp flip: of_int_minus)
next
  case False
  then have "x \<noteq> of_int \<lfloor>x\<rfloor>" by (metis Ints_of_int)
  then have fl: "\<lfloor>- x\<rfloor> = - \<lfloor>x\<rfloor> - 1"
    by (simp add: floor_minus ceiling_altdef)
  have d: "- x - of_int (- \<lfloor>x\<rfloor> - 1) = 1 - (x - of_int \<lfloor>x\<rfloor>)" by simp
  show ?thesis
    unfolding rne_def Let_def fl d by auto
qed

lemma rne_0 [simp]: "rne 0 = 0"
  by (simp add: rne_def)

lemma rne_nonneg: "0 \<le> x \<Longrightarrow> 0 \<le> rne x"
  using rne_mono [of 0 x] by simp

subsection \<open>Rounding to a format\<close>

text \<open>
  The exponent of the unit in the last place is found from the binade of the argument;
  \<open>fl_eval\<close> evaluates a rounding once the binade is known.
\<close>

lemma two_powi_pos [simp]: "0 < (2::real) powi k"
  by simp

lemma two_powr_powi: "(2::real) powr real_of_int k = 2 powi k"
  by (rule powr_real_of_int') simp_all

lemma two_powr_powi_Suc: "(2::real) powr (real_of_int k + 1) = 2 powi (k + 1)"
  using two_powr_powi [of "k + 1"] by simp

lemma two_powi_le_iff [simp]: "(2::real) powi a \<le> 2 powi b \<longleftrightarrow> a \<le> b"
proof
  assume "(2::real) powi a \<le> 2 powi b"
  show "a \<le> b"
  proof (rule ccontr)
    assume "\<not> a \<le> b"
    then have "(2::real) powi b < 2 powi a"
      by (intro power_int_strict_increasing) simp_all
    with \<open>(2::real) powi a \<le> 2 powi b\<close> show False by linarith
  qed
next
  assume "a \<le> b"
  then show "(2::real) powi a \<le> 2 powi b"
    by (intro power_int_increasing) simp_all
qed

lemma two_powi_less_iff [simp]: "(2::real) powi a < 2 powi b \<longleftrightarrow> a < b"
  using two_powi_le_iff [of b a] by (simp only: not_le [symmetric])

lemma floor_log2_eqI:
  assumes "(2::real) powi e \<le> x" "x < 2 powi (e + 1)"
  shows "\<lfloor>log 2 x\<rfloor> = e"
proof -
  have "0 < x" using assms(1) two_powi_pos [of e] by linarith
  then show ?thesis
    using assms by (simp add: floor_log_eq_powr_iff two_powr_powi two_powr_powi_Suc)
qed

lemma floor_log2_bounds:
  assumes "0 < (x::real)"
  shows "2 powi \<lfloor>log 2 x\<rfloor> \<le> x \<and> x < 2 powi (\<lfloor>log 2 x\<rfloor> + 1)"
  using floor_log_eq_powr_iff [OF assms, of 2 "\<lfloor>log 2 x\<rfloor>"]
  by (simp add: two_powr_powi two_powr_powi_Suc)

lemma floor_log2_mono:
  assumes "0 < (x::real)" "x \<le> y"
  shows "\<lfloor>log 2 x\<rfloor> \<le> \<lfloor>log 2 y\<rfloor>"
  using assms by (intro floor_mono) simp

lemma ulp_exp_mono:
  assumes "0 < x" "x \<le> y"
  shows "ulp_exp p emin x \<le> ulp_exp p emin y"
  using floor_log2_mono [OF assms] assms by (simp add: ulp_exp_def)

lemma ulp_exp_minus [simp]: "ulp_exp p emin (- x) = ulp_exp p emin x"
  by (simp add: ulp_exp_def)

lemma ulp_exp_eqI:
  assumes "2 powi e \<le> \<bar>x\<bar>" "\<bar>x\<bar> < 2 powi (e + 1)"
  shows "ulp_exp p emin x = max emin (e - int p + 1)"
  using floor_log2_eqI [OF assms] by (simp add: ulp_exp_def)

lemma fl_0 [simp]: "fl p emin 0 = 0"
  by (simp add: fl_def)

lemma fl_minus: "fl p emin (- x) = - fl p emin x"
  by (simp add: fl_def rne_minus)

lemma powi_int_grid:
  assumes "k \<le> m"
  shows "(2::real) powi m / 2 powi k = of_int (2 ^ nat (m - k))"
proof -
  have "(2::real) powi m / 2 powi k = 2 powi (m - k)"
    by (simp add: power_int_diff)
  also have "\<dots> = 2 ^ nat (m - k)"
    using assms by (simp add: power_int_def)
  finally show ?thesis by simp
qed

lemma fl_le_powi:
  assumes "0 < x" "x \<le> 2 powi m" "emin \<le> m" "0 < p"
  shows "fl p emin x \<le> 2 powi m"
proof -
  let ?k = "ulp_exp p emin x"
  have "2 powi \<lfloor>log 2 x\<rfloor> \<le> x" using floor_log2_bounds [OF assms(1)] by simp
  with assms(2) have "(2::real) powi \<lfloor>log 2 x\<rfloor> \<le> 2 powi m" by linarith
  then have "\<lfloor>log 2 x\<rfloor> \<le> m" by simp
  with assms(1,3,4) have k: "?k \<le> m" by (simp add: ulp_exp_def)
  have "x / 2 powi ?k \<le> 2 powi m / 2 powi ?k"
    using assms(2) by (simp add: divide_right_mono)
  also have "\<dots> = of_int (2 ^ nat (m - ?k))" by (rule powi_int_grid [OF k])
  finally have "rne (x / 2 powi ?k) \<le> 2 ^ nat (m - ?k)"
    using rne_mono rne_of_int by metis
  then have "real_of_int (rne (x / 2 powi ?k)) \<le> real_of_int (2 ^ nat (m - ?k))"
    by (simp only: of_int_le_iff)
  then have "real_of_int (rne (x / 2 powi ?k)) \<le> 2 powi m / 2 powi ?k"
    by (simp only: powi_int_grid [OF k])
  then have "real_of_int (rne (x / 2 powi ?k)) * 2 powi ?k \<le> 2 powi m"
    by (simp add: pos_le_divide_eq)
  then show ?thesis using assms(1) by (simp add: fl_def)
qed

lemma fl_ge_powi_grid:
  assumes "0 < x" "2 powi m \<le> x" "ulp_exp p emin x \<le> m"
  shows "2 powi m \<le> fl p emin x"
proof -
  let ?k = "ulp_exp p emin x"
  have "real_of_int (2 ^ nat (m - ?k)) = 2 powi m / 2 powi ?k"
    by (rule powi_int_grid [OF assms(3), symmetric])
  also have "\<dots> \<le> x / 2 powi ?k"
    using assms(2) by (simp add: divide_right_mono)
  finally have "2 ^ nat (m - ?k) \<le> rne (x / 2 powi ?k)"
    using rne_mono rne_of_int by metis
  then have "real_of_int (2 ^ nat (m - ?k)) \<le> real_of_int (rne (x / 2 powi ?k))"
    by (simp only: of_int_le_iff)
  then have "2 powi m / 2 powi ?k \<le> real_of_int (rne (x / 2 powi ?k))"
    by (simp only: powi_int_grid [OF assms(3)])
  then have "2 powi m \<le> real_of_int (rne (x / 2 powi ?k)) * 2 powi ?k"
    by (simp add: pos_divide_le_eq)
  then show ?thesis using assms(1) by (simp add: fl_def)
qed

lemma fl_ge_powi:
  assumes "0 < x" "2 powi m \<le> x" "emin \<le> m" "0 < p"
  shows "2 powi m \<le> fl p emin x"
proof (cases "ulp_exp p emin x \<le> m")
  case True
  then show ?thesis by (rule fl_ge_powi_grid [OF assms(1,2)])
next
  case False
  let ?e = "\<lfloor>log 2 x\<rfloor>"
  from False assms(3) have k: "ulp_exp p emin x = ?e - int p + 1" and m: "m < ?e - int p + 1"
    using assms(1) by (simp_all add: ulp_exp_def max_def split: if_splits)
  have "ulp_exp p emin x \<le> ?e" using k assms(4) by simp
  moreover have "2 powi ?e \<le> x" using floor_log2_bounds [OF assms(1)] by simp
  ultimately have "2 powi ?e \<le> fl p emin x" by (intro fl_ge_powi_grid assms(1))
  moreover have "(2::real) powi m \<le> 2 powi ?e" using m assms(4) by simp
  ultimately show ?thesis by linarith
qed

lemma fl_nonneg: assumes "0 \<le> x" shows "0 \<le> fl p emin x"
proof -
  have "0 \<le> x / 2 powi ulp_exp p emin x" using assms by simp
  then have "0 \<le> rne (x / 2 powi ulp_exp p emin x)" by (rule rne_nonneg)
  then show ?thesis by (simp add: fl_def)
qed

lemma fl_mono_pos:
  assumes "0 < x" "x \<le> y" "0 < p"
  shows "fl p emin x \<le> fl p emin y"
proof (cases "ulp_exp p emin x = ulp_exp p emin y")
  case True
  have "x / 2 powi ulp_exp p emin y \<le> y / 2 powi ulp_exp p emin y"
    using assms(2) by (simp add: divide_right_mono)
  then have "rne (x / 2 powi ulp_exp p emin y) \<le> rne (y / 2 powi ulp_exp p emin y)"
    by (rule rne_mono)
  then have "real_of_int (rne (x / 2 powi ulp_exp p emin y)) * 2 powi ulp_exp p emin y
           \<le> real_of_int (rne (y / 2 powi ulp_exp p emin y)) * 2 powi ulp_exp p emin y"
    by (intro mult_right_mono) simp_all
  then show ?thesis using assms(1,2) True by (simp add: fl_def)
next
  case False
  let ?ex = "\<lfloor>log 2 x\<rfloor>" and ?ey = "\<lfloor>log 2 y\<rfloor>"
  have y: "0 < y" using assms(1,2) by linarith
  have "ulp_exp p emin x \<le> ulp_exp p emin y" by (rule ulp_exp_mono [OF assms(1,2)])
  with False have lt: "ulp_exp p emin x < ulp_exp p emin y" by simp
  have ab: "\<bar>x\<bar> = x" "\<bar>y\<bar> = y" using assms(1) y by simp_all
  from lt have ky: "ulp_exp p emin y = ?ey - int p + 1" and emin: "emin < ?ey - int p + 1"
    by (simp_all add: ulp_exp_def ab max_def split: if_splits)
  from lt ky have "?ex < ?ey" by (simp add: ulp_exp_def ab max_def split: if_splits)
  then have "?ex + 1 \<le> ?ey" by simp
  moreover have "x < 2 powi (?ex + 1)" using floor_log2_bounds [OF assms(1)] by simp
  ultimately have "x \<le> 2 powi ?ey"
    using two_powi_le_iff [of "?ex + 1" ?ey] by linarith
  moreover have "emin \<le> ?ey" using emin assms(3) by simp
  ultimately have "fl p emin x \<le> 2 powi ?ey"
    by (intro fl_le_powi assms(1,3))
  moreover have "2 powi ?ey \<le> fl p emin y"
  proof (rule fl_ge_powi_grid [OF y])
    show "2 powi ?ey \<le> y" using floor_log2_bounds [OF y] by simp
    show "ulp_exp p emin y \<le> ?ey" using ky assms(3) by simp
  qed
  ultimately show ?thesis by linarith
qed

lemma fl_mono:
  assumes "x \<le> y" "0 < p"
  shows "fl p emin x \<le> fl p emin y"
proof -
  consider "0 < x" | "x \<le> 0" "0 \<le> y" | "y < 0" using assms(1) by linarith
  then show ?thesis
  proof cases
    case 1
    then show ?thesis by (rule fl_mono_pos [OF _ assms])
  next
    case 2
    have "fl p emin x = - fl p emin (- x)" by (simp add: fl_minus)
    moreover have "0 \<le> fl p emin (- x)" using 2(1) by (intro fl_nonneg) simp
    moreover have "0 \<le> fl p emin y" using 2(2) by (rule fl_nonneg)
    ultimately show ?thesis by linarith
  next
    case 3
    then have "0 < - y" "- y \<le> - x" using assms(1) by simp_all
    then have "fl p emin (- y) \<le> fl p emin (- x)" by (rule fl_mono_pos) (rule assms(2))
    then show ?thesis by (simp add: fl_minus)
  qed
qed

lemma fl_exact_grid:
  assumes "x / 2 powi ulp_exp p emin x = of_int n"
  shows "fl p emin x = x"
proof (cases "x = 0")
  case False
  have "fl p emin x = of_int n * 2 powi ulp_exp p emin x"
    using False by (simp add: fl_def assms)
  also have "\<dots> = (x / 2 powi ulp_exp p emin x) * 2 powi ulp_exp p emin x"
    by (simp only: assms)
  also have "\<dots> = x" by simp
  finally show ?thesis .
qed simp

lemma fl_powi:
  assumes "emin \<le> m" "0 < p"
  shows "fl p emin (2 powi m) = 2 powi m"
proof -
  have "ulp_exp p emin (2 powi m) = max emin (m - int p + 1)"
    by (rule ulp_exp_eqI) simp_all
  with assms have k: "ulp_exp p emin (2 powi m) \<le> m" by simp
  show ?thesis
    by (rule fl_exact_grid [where n = "2 ^ nat (m - ulp_exp p emin (2 powi m))"])
       (rule powi_int_grid [OF k])
qed

lemma fl_bounds_powi:
  assumes "2 powi a \<le> x" "x \<le> 2 powi b" "emin \<le> a" "0 < p"
  shows "2 powi a \<le> fl p emin x \<and> fl p emin x \<le> 2 powi b"
proof -
  have x: "0 < x" using assms(1) two_powi_pos [of a] by linarith
  have "(2::real) powi a \<le> 2 powi b" using assms(1,2) by linarith
  then have "emin \<le> b" using assms(3) by simp
  then show ?thesis
    using fl_ge_powi [OF x assms(1,3,4)] fl_le_powi [OF x assms(2) _ assms(4)] by simp
qed

lemma fl_eval:
  assumes "2 powi e \<le> \<bar>x\<bar>" "\<bar>x\<bar> < 2 powi (e + 1)"
  shows "fl p emin x
           = of_int (rne (x / 2 powi max emin (e - int p + 1))) * 2 powi max emin (e - int p + 1)"
proof -
  have "0 < \<bar>x\<bar>" using assms(1) two_powi_pos [of e] by linarith
  then have "x \<noteq> 0" by simp
  then show ?thesis by (simp add: fl_def ulp_exp_eqI [OF assms])
qed

lemma fl_int_powi:
  assumes "\<bar>n\<bar> < 2 ^ p" "emin \<le> j" "0 < p"
  shows "fl p emin (of_int n * 2 powi j) = of_int n * 2 powi j"
proof (cases "n = 0")
  case False
  let ?x = "real_of_int n * 2 powi j"
  have ax: "\<bar>?x\<bar> = real_of_int \<bar>n\<bar> * 2 powi j" by (simp add: abs_mult)
  have pos: "0 < \<bar>?x\<bar>" using False by simp
  have "real_of_int \<bar>n\<bar> < 2 ^ p" using assms(1) by (metis of_int_less_numeral_power_cancel_iff)
  then have "\<bar>?x\<bar> < 2 ^ p * 2 powi j" unfolding ax by simp
  also have "\<dots> = 2 powi (int p + j)" by (simp add: power_int_add)
  finally have lt: "\<bar>?x\<bar> < 2 powi (int p + j)" .
  have "2 powi \<lfloor>log 2 \<bar>?x\<bar>\<rfloor> \<le> \<bar>?x\<bar>" using floor_log2_bounds [OF pos] by simp
  with lt have "(2::real) powi \<lfloor>log 2 \<bar>?x\<bar>\<rfloor> < 2 powi (int p + j)" by linarith
  then have "\<lfloor>log 2 \<bar>?x\<bar>\<rfloor> < int p + j" by simp
  with assms(2) have k: "ulp_exp p emin ?x \<le> j" by (simp add: ulp_exp_def)
  have "?x / 2 powi ulp_exp p emin ?x = real_of_int n * (2 powi j / 2 powi ulp_exp p emin ?x)"
    by simp
  also have "\<dots> = real_of_int (n * 2 ^ nat (j - ulp_exp p emin ?x))"
    by (simp only: powi_int_grid [OF k] of_int_mult)
  finally show ?thesis by (rule fl_exact_grid)
qed simp

lemma fl_of_int:
  assumes "\<bar>n\<bar> < 2 ^ p" "emin \<le> 0" "0 < p"
  shows "fl p emin (of_int n) = of_int n"
  using fl_int_powi [OF assms(1) assms(2) assms(3)] by simp

subsection \<open>Rounded operations of binary64 are monotone\<close>

text \<open>
  \<open>double_le\<close> is the order of binary64 on values that are not NaN; the two zeros are equal
  in it. Rounding a magnitude with its sign is monotone, also across an overflow.
\<close>

lemma fl53_mono: "x \<le> y \<Longrightarrow> fl 53 (- 1074) x \<le> fl 53 (- 1074) y"
  by (rule fl_mono) simp_all

lemma fl53_nonneg: "0 \<le> x \<Longrightarrow> 0 \<le> fl 53 (- 1074) x"
  by (rule fl_nonneg)

lemma wf_round_double: "0 \<le> m \<Longrightarrow> wf_double (round_double s m)"
  by (simp add: round_double_def Let_def fl53_nonneg)

lemma overflow_threshold_pos: "0 < overflow_threshold"
  by (simp only: overflow_threshold_def two_powi_pos)

lemma below_overflow_threshold:
  assumes "r \<le> 2 powi j" "j < 1024"
  shows "\<not> overflow_threshold \<le> r"
proof -
  have "(2::real) powi j < 2 powi 1024" using assms(2) by (simp only: two_powi_less_iff)
  with assms(1) show ?thesis unfolding overflow_threshold_def by linarith
qed

lemma round_double_0 [simp]: "round_double s 0 = Finite s 0"
  using overflow_threshold_pos by (simp add: round_double_def)

lemma round_double_mono:
  assumes "0 \<le> a" "0 \<le> b" "valof (Finite s a) \<le> valof (Finite t b)"
  shows "double_le (round_double s a) (round_double t b)"
proof -
  have na: "0 \<le> fl 53 (- 1074) a" and nb: "0 \<le> fl 53 (- 1074) b"
    using assms(1,2) by (simp_all add: fl53_nonneg)
  show ?thesis
  proof (cases s; cases t)
    assume "\<not> s" "\<not> t"
    with assms(3) have "fl 53 (- 1074) a \<le> fl 53 (- 1074) b" by (simp add: fl53_mono)
    with \<open>\<not> s\<close> \<open>\<not> t\<close> show ?thesis by (auto simp: round_double_def Let_def)
  next
    assume "s" "t"
    with assms(3) have "fl 53 (- 1074) b \<le> fl 53 (- 1074) a" by (simp add: fl53_mono)
    with \<open>s\<close> \<open>t\<close> show ?thesis by (auto simp: round_double_def Let_def)
  next
    assume "s" "\<not> t"
    with na nb show ?thesis by (auto simp: round_double_def Let_def)
  next
    assume "\<not> s" "t"
    with assms have "a = 0" "b = 0" by simp_all
    with \<open>\<not> s\<close> \<open>t\<close> show ?thesis by simp
  qed
qed

lemma double_of_real_mono: "x \<le> y \<Longrightarrow> double_le (double_of_real x) (double_of_real y)"
  unfolding double_of_real_def by (rule round_double_mono) auto

lemma wf_double_of_real: "wf_double (double_of_real x)"
  by (simp add: double_of_real_def wf_round_double)

lemma wf_dexp: "wf_double x \<Longrightarrow> wf_double (dexp x)"
  by (cases x) (simp_all add: wf_round_double)

lemma dexp_mono:
  assumes "double_le x y" "wf_double x" "wf_double y"
  shows "double_le (dexp x) (dexp y)"
proof (cases x; cases y)
  fix s a t b assume xy: "x = Finite s a" "y = Finite t b"
  with assms(1) have "exp (valof (Finite s a)) \<le> exp (valof (Finite t b))" by simp
  then have "double_le (round_double False (exp (valof (Finite s a))))
                       (round_double False (exp (valof (Finite t b))))"
    by (intro round_double_mono) simp_all
  with xy show ?thesis by simp
next
  fix s t b assume xy: "x = Infinity s" "y = Finite t b"
  with assms(1) have s by simp
  have "double_le (round_double False 0) (round_double False (exp (valof (Finite t b))))"
    by (intro round_double_mono) simp_all
  with xy \<open>s\<close> show ?thesis by simp
next
  fix s a t assume xy: "x = Finite s a" "y = Infinity t"
  with assms(1) have "\<not> t" by simp
  with xy show ?thesis by (simp add: round_double_def Let_def)
next
  fix s t assume xy: "x = Infinity s" "y = Infinity t"
  with assms(1) show ?thesis by auto
qed (use assms in simp_all)

lemma rne_near:
  assumes "of_int n - 1 / 2 < x" "x < of_int n + 1 / 2"
  shows "rne x = n"
proof -
  have "real_of_int n - 1 < of_int (rne x)" using rne_lower [of x] assms(1) by linarith
  moreover have "real_of_int (rne x) < of_int n + 1" using rne_upper [of x] assms(2) by linarith
  ultimately have "n - 1 < rne x" "rne x < n + 1" by linarith+
  then show ?thesis by linarith
qed

lemma fl53_one_below:
  assumes "0 \<le> q" "q \<le> 2 powi (- 55)"
  shows "fl 53 (- 1074) (1 - q) = 1"
proof (cases "q = 0")
  case True
  then show ?thesis using fl_of_int [of 1 53 "- 1074"] by simp
next
  case False
  have q: "q \<le> 1 / 2 ^ 55" using assms(2) by (simp add: power_int_minus inverse_eq_divide)
  have b: "2 powi (- 1) \<le> \<bar>1 - q\<bar>" "\<bar>1 - q\<bar> < 2 powi (- 1 + 1)"
    using assms(1) q False by (simp_all add: power_int_minus)
  have "(1 - q) / 2 powi (- 53) = 2 ^ 53 - q * 2 ^ 53"
    by (simp add: power_int_minus field_simps)
  moreover have "q * 2 ^ 53 \<le> 1 / 4" using q by (simp add: field_simps)
  moreover have "0 \<le> q * 2 ^ 53" using assms(1) by simp
  ultimately have "rne ((1 - q) / 2 powi (- 53)) = 2 ^ 53"
    by (intro rne_near) simp_all
  then show ?thesis
    by (simp add: fl_eval [OF b] power_int_minus)
qed

lemma fl53_one_above:
  assumes "0 \<le> q" "q \<le> 2 powi (- 54)"
  shows "fl 53 (- 1074) (1 + q) = 1"
proof -
  have q: "q \<le> 1 / 2 ^ 54" using assms(2) by (simp add: power_int_minus inverse_eq_divide)
  have b: "2 powi 0 \<le> \<bar>1 + q\<bar>" "\<bar>1 + q\<bar> < 2 powi (0 + 1)"
    using assms(1) q by simp_all
  have "(1 + q) / 2 powi (- 52) = 2 ^ 52 + q * 2 ^ 52"
    by (simp add: power_int_minus field_simps)
  moreover have "q * 2 ^ 52 \<le> 1 / 4" using q by (simp add: field_simps)
  moreover have "0 \<le> q * 2 ^ 52" using assms(1) by simp
  ultimately have "rne ((1 + q) / 2 powi (- 52)) = 2 ^ 52"
    by (intro rne_near) simp_all
  then show ?thesis
    by (simp add: fl_eval [OF b] power_int_minus)
qed

subsection \<open>Single precision at the values the claims use\<close>

lemma rnd32_of_int: "\<bar>n\<bar> < 2 ^ 24 \<Longrightarrow> rnd32 (of_int n) = of_int n"
  unfolding rnd32_def by (rule fl_of_int) simp_all

lemma rnd32_powi: "- 149 \<le> m \<Longrightarrow> rnd32 (2 powi m) = 2 powi m"
  unfolding rnd32_def by (rule fl_powi) simp_all

lemma rnd32_0 [simp]: "rnd32 0 = 0"
  by (simp add: rnd32_def)

lemma rnd32_1 [simp]: "rnd32 1 = 1"
  using rnd32_of_int [of 1] by simp

lemma rnd32_2 [simp]: "rnd32 2 = 2"
  using rnd32_of_int [of 2] by simp

lemma rnd32_3 [simp]: "rnd32 3 = 3"
  using rnd32_of_int [of 3] by simp




subsection \<open>One pixel of the optical thickness\<close>

text \<open>
  The pixel \<open>px S k\<close> is antitone in the rounded exponent, hence monotone in the exact product
  \<open>\<Sigma> \<cdot> \<kappa>\<close>. For a product of \<open>40\<close> or more \<open>exp\<close> returns less than \<open>2\<^sup>-\<^sup>5\<^sup>5\<close>, which the
  subtraction from \<open>1\<close> absorbs; for a product of magnitude at most \<open>2\<^sup>-\<^sup>5\<^sup>5\<close> \<open>exp\<close> returns \<open>1\<close>.
\<close>

lemma one_below_threshold: "\<not> overflow_threshold \<le> 1"
  using below_overflow_threshold [of 1 0] by simp

lemma round_double_1 [simp]: "round_double s 1 = Finite s 1"
proof -
  have "fl 53 (- 1074) 1 = 1" using fl_of_int [of 1 53 "- 1074"] by simp
  then show ?thesis by (simp add: round_double_def one_below_threshold)
qed

lemma double_of_real_1 [simp]: "double_of_real 1 = Finite False 1"
  by (simp add: double_of_real_def)

lemma double_of_real_0 [simp]: "double_of_real 0 = Finite False 0"
  by (simp add: double_of_real_def)

lemma dsub_one_Finite:
  "dsub (Finite False 1) (Finite s q) = double_of_real (1 - valof (Finite s q))"
  by (simp add: dsub_def Let_def)

lemma dsub_one_antimono:
  assumes "double_le x y" "wf_double x" "wf_double y"
  shows "double_le (dsub (Finite False 1) y) (dsub (Finite False 1) x)"
proof (cases x; cases y)
  fix s a t b assume xy: "x = Finite s a" "y = Finite t b"
  with assms(1) have "1 - valof (Finite t b) \<le> 1 - valof (Finite s a)" by simp
  then show ?thesis unfolding xy dsub_one_Finite by (rule double_of_real_mono)
next
  fix s t b assume xy: "x = Infinity s" "y = Finite t b"
  with assms(1) have s by simp
  have "wf_double (double_of_real (1 - valof (Finite t b)))" by (rule wf_double_of_real)
  then show ?thesis unfolding xy dsub_one_Finite using \<open>s\<close>
    by (cases "double_of_real (1 - valof (Finite t b))") (simp_all add: dsub_def)
next
  fix s a t assume xy: "x = Finite s a" "y = Infinity t"
  with assms(1) have "\<not> t" by simp
  have "wf_double (double_of_real (1 - valof (Finite s a)))" by (rule wf_double_of_real)
  then show ?thesis unfolding xy dsub_one_Finite using \<open>\<not> t\<close>
    by (cases "double_of_real (1 - valof (Finite s a))") (simp_all add: dsub_def)
next
  fix s t assume xy: "x = Infinity s" "y = Infinity t"
  with assms(1) show ?thesis by (auto simp: dsub_def)
qed (use assms in simp_all)

lemma dmul_dneg_Finite:
  "dmul (dneg (Finite s a)) (Finite t b) = round_double (s = t) (a * b)"
  by auto

lemma valof_product_sign:
  assumes "0 \<le> a" "0 \<le> b"
  shows "valof (Finite (s = t) (a * b)) = - (valof (Finite s a) * valof (Finite t b))"
  by auto

lemma dmul_dneg_antimono:
  assumes "is_finite S1" "is_finite k1" "is_finite S2" "is_finite k2"
    and "valof S1 * valof k1 \<le> valof S2 * valof k2"
  shows "double_le (dmul (dneg S2) k2) (dmul (dneg S1) k1)"
proof -
  obtain s1 a1 where S1: "S1 = Finite s1 a1" "0 \<le> a1" using assms(1) by (cases S1) auto
  obtain t1 b1 where k1: "k1 = Finite t1 b1" "0 \<le> b1" using assms(2) by (cases k1) auto
  obtain s2 a2 where S2: "S2 = Finite s2 a2" "0 \<le> a2" using assms(3) by (cases S2) auto
  obtain t2 b2 where k2: "k2 = Finite t2 b2" "0 \<le> b2" using assms(4) by (cases k2) auto
  have "valof (Finite (s2 = t2) (a2 * b2)) \<le> valof (Finite (s1 = t1) (a1 * b1))"
    using assms(5)
    unfolding valof_product_sign [OF S2(2) k2(2)] valof_product_sign [OF S1(2) k1(2)] S1 k1 S2 k2
    by simp
  then show ?thesis
    unfolding S1 k1 S2 k2 dmul_dneg_Finite
    using S1(2) k1(2) S2(2) k2(2) by (intro round_double_mono) simp_all
qed

lemma wf_dmul_dneg:
  assumes "is_finite S" "is_finite k"
  shows "wf_double (dmul (dneg S) k)"
proof -
  obtain s a where S: "S = Finite s a" "0 \<le> a" using assms(1) by (cases S) auto
  obtain t b where k: "k = Finite t b" "0 \<le> b" using assms(2) by (cases k) auto
  show ?thesis unfolding S k dmul_dneg_Finite using S(2) k(2) by (intro wf_round_double) simp
qed

lemma px_mono:
  assumes "is_finite S1" "is_finite k1" "is_finite S2" "is_finite k2"
    and "valof S1 * valof k1 \<le> valof S2 * valof k2"
  shows "double_le (px S1 k1) (px S2 k2)"
proof -
  have "double_le (dmul (dneg S2) k2) (dmul (dneg S1) k1)"
    by (rule dmul_dneg_antimono [OF assms])
  then have "double_le (dexp (dmul (dneg S2) k2)) (dexp (dmul (dneg S1) k1))"
    by (rule dexp_mono) (rule wf_dmul_dneg, fact, fact)+
  then show ?thesis
    by (simp, intro dsub_one_antimono wf_dexp wf_dmul_dneg assms(1-4))
qed

lemma exp_1_ge: "(13 / 5 :: real) \<le> exp 1"
proof -
  have "(17 / 16 :: real) \<le> exp (1 / 16)"
    using exp_ge_add_one_self [of "1 / 16 :: real"] by simp
  then have "(17 / 16 :: real) ^ 16 \<le> exp (1 / 16) ^ 16"
    by (intro power_mono) simp_all
  also have "\<dots> = exp (of_nat 16 * (1 / 16))" by (rule exp_of_nat_mult [symmetric])
  also have "\<dots> = exp 1" by simp
  finally have "(17 / 16 :: real) ^ 16 \<le> exp 1" .
  moreover have "(13 / 5 :: real) \<le> (17 / 16) ^ 16" by (simp add: power_divide)
  ultimately show ?thesis by linarith
qed

lemma exp_40_ge: "2 ^ 55 \<le> exp (40::real)"
proof -
  have "(13 / 5 :: real) ^ 40 \<le> exp 1 ^ 40"
    using exp_1_ge by (intro power_mono) simp_all
  also have "\<dots> = exp (of_nat 40 * 1)" by (rule exp_of_nat_mult [symmetric])
  also have "\<dots> = exp 40" by simp
  finally have "(13 / 5 :: real) ^ 40 \<le> exp 40" .
  moreover have "(2::real) ^ 55 \<le> (13 / 5) ^ 40" by (simp add: power_divide)
  ultimately show ?thesis by linarith
qed

lemma exp_minus_40_le: assumes "40 \<le> (r::real)" shows "exp (- r) \<le> 2 powi (- 55)"
proof -
  have "(2::real) ^ 55 \<le> exp r" using exp_40_ge assms
    by (meson exp_le_cancel_iff order_trans)
  then have "inverse (exp r) \<le> inverse (2 ^ 55)"
    by (intro le_imp_inverse_le) simp_all
  then show ?thesis by (simp add: exp_minus power_int_minus)
qed

lemma round_double_small:
  assumes "0 \<le> m" "m \<le> 2 powi j" "- 1074 \<le> j" "j < 1024"
  shows "round_double s m = Finite s (fl 53 (- 1074) m) \<and> fl 53 (- 1074) m \<le> 2 powi j
         \<and> 0 \<le> fl 53 (- 1074) m"
proof -
  have le: "fl 53 (- 1074) m \<le> 2 powi j"
  proof (cases "m = 0")
    case False
    with assms(1) have "0 < m" by simp
    then show ?thesis by (intro fl_le_powi assms) simp_all
  qed simp
  then have "\<not> overflow_threshold \<le> fl 53 (- 1074) m"
    by (rule below_overflow_threshold) (rule assms(4))
  then show ?thesis using le fl53_nonneg [OF assms(1)]
    by (simp add: round_double_def Let_def)
qed

lemma px_high:
  assumes "is_finite S" "is_finite k" "40 \<le> valof S * valof k"
  shows "px S k = Finite False 1"
proof -
  obtain s a where S: "S = Finite s a" "0 \<le> a" using assms(1) by (cases S) auto
  obtain t b where k: "k = Finite t b" "0 \<le> b" using assms(2) by (cases k) auto
  have nn: "0 \<le> a * b" using S(2) k(2) by simp
  have st: "s = t"
  proof (rule ccontr)
    assume "s \<noteq> t"
    then have "valof S * valof k = - (a * b)" using S k by auto
    with nn assms(3) show False by linarith
  qed
  then have "valof S * valof k = a * b" using S k by auto
  with assms(3) have ab: "40 \<le> a * b" by simp
  let ?r = "fl 53 (- 1074) (a * b)"
  have "fl 53 (- 1074) (of_int 40) \<le> ?r" using ab by (intro fl53_mono) simp
  then have r: "40 \<le> ?r" using fl_of_int [of 40 53 "- 1074"] by simp
  have m: "dmul (dneg S) k = round_double True (a * b)"
    unfolding S k dmul_dneg_Finite using st by simp
  show ?thesis
  proof (cases "overflow_threshold \<le> ?r")
    case True
    then have "dmul (dneg S) k = Infinity True" by (simp add: m round_double_def)
    then show ?thesis by (simp add: dsub_one_Finite)
  next
    case False
    then have mm: "dmul (dneg S) k = Finite True ?r" by (simp add: m round_double_def)
    let ?q = "fl 53 (- 1074) (exp (- ?r))"
    have e: "exp (- ?r) \<le> 2 powi (- 55)" by (rule exp_minus_40_le [OF r])
    have q: "round_double False (exp (- ?r)) = Finite False ?q \<and> ?q \<le> 2 powi (- 55) \<and> 0 \<le> ?q"
      by (rule round_double_small [OF _ e]) simp_all
    then have one: "fl 53 (- 1074) (1 - ?q) = 1" by (intro fl53_one_below) simp_all
    have "?q < 1" using q by (simp add: power_int_minus) 
    then have "double_of_real (1 - ?q) = Finite False 1"
      using one by (simp add: double_of_real_def round_double_def one_below_threshold)
    then show ?thesis using q by (simp add: mm dsub_one_Finite)
  qed
qed

lemma exp_small_le:
  assumes "0 \<le> (u::real)" "u \<le> 2 powi (- 55)"
  shows "exp u \<le> 1 + 2 powi (- 54)"
proof -
  have u: "u \<le> 1 / 2 ^ 55" using assms(2) by (simp add: power_int_minus inverse_eq_divide)
  then have u1: "u \<le> 1" by (rule order_trans) simp
  have "exp u \<le> 1 + u + u\<^sup>2" by (rule exp_bound [OF assms(1) u1])
  also have "u\<^sup>2 \<le> u * 1" unfolding power2_eq_square using assms(1) u1 by (intro mult_left_mono)
  finally have "exp u \<le> 1 + 2 * u" by simp
  also have "\<dots> \<le> 1 + 2 powi (- 54)" using u by (simp add: power_int_minus field_simps)
  finally show ?thesis .
qed

lemma fl53_exp_small:
  assumes "\<bar>v\<bar> \<le> 2 powi (- 55)"
  shows "fl 53 (- 1074) (exp v) = 1"
proof (cases "0 \<le> v")
  case True
  with assms have "exp v \<le> 1 + 2 powi (- 54)" by (intro exp_small_le) simp_all
  moreover have "1 \<le> exp v" using True by simp
  ultimately have "0 \<le> exp v - 1" "exp v - 1 \<le> 2 powi (- 54)" by simp_all
  then have "fl 53 (- 1074) (1 + (exp v - 1)) = 1" by (rule fl53_one_above)
  then show ?thesis by simp
next
  case False
  then have e: "1 + v \<le> exp v" "exp v \<le> 1" by simp_all
  from assms False have "- v \<le> 2 powi (- 55)" by simp
  with e have "0 \<le> 1 - exp v" "1 - exp v \<le> 2 powi (- 55)" by linarith+
  then have "fl 53 (- 1074) (1 - (1 - exp v)) = 1" by (rule fl53_one_below)
  then show ?thesis by simp
qed

lemma px_low:
  assumes "is_finite S" "is_finite k" "\<bar>valof S * valof k\<bar> \<le> 2 powi (- 55)"
  shows "px S k = Finite False 0"
proof -
  obtain s a where S: "S = Finite s a" "0 \<le> a" using assms(1) by (cases S) auto
  obtain t b where k: "k = Finite t b" "0 \<le> b" using assms(2) by (cases k) auto
  have nn: "0 \<le> a * b" using S(2) k(2) by simp
  have "\<bar>valof S * valof k\<bar> = a * b" using S k nn by (auto simp: abs_mult)
  with assms(3) have ab: "a * b \<le> 2 powi (- 55)" by simp
  let ?r = "fl 53 (- 1074) (a * b)"
  have r: "round_double (s = t) (a * b) = Finite (s = t) ?r \<and> ?r \<le> 2 powi (- 55) \<and> 0 \<le> ?r"
    by (rule round_double_small [OF nn ab]) simp_all
  then have "\<bar>valof (Finite (s = t) ?r)\<bar> \<le> 2 powi (- 55)" by simp
  then have "fl 53 (- 1074) (exp (valof (Finite (s = t) ?r))) = 1" by (rule fl53_exp_small)
  then have "dexp (Finite (s = t) ?r) = Finite False 1"
    by (simp add: round_double_def one_below_threshold del: valof.simps)
  then show ?thesis
    unfolding S k dmul_dneg_Finite using r by (simp add: dsub_one_Finite)
qed

subsection \<open>Positive values between two powers of two\<close>

text \<open>
  \<open>pos_between d a b\<close>: the value \<open>d\<close> is finite, positive and between \<open>2\<^sup>a\<close> and \<open>2\<^sup>b\<close>.
  Products, quotients and cubes of such values are again of this kind, as long as the
  exponents stay in the range of binary64.
\<close>

lemma pos_betweenE:
  assumes "pos_between d a b"
  obtains m where "d = Finite False m" "2 powi a \<le> m" "m \<le> 2 powi b" "0 < m"
proof -
  from assms obtain m where m: "d = Finite False m" "2 powi a \<le> m" "m \<le> 2 powi b"
    by (cases d) auto
  moreover have "0 < m" using m(2) two_powi_pos [of a] by linarith
  ultimately show ?thesis by (rule that)
qed

lemma round_double_between:
  assumes "2 powi a \<le> m" "m \<le> 2 powi b" "- 1074 \<le> a" "b < 1024"
  shows "pos_between (round_double False m) a b"
proof -
  have "2 powi a \<le> fl 53 (- 1074) m \<and> fl 53 (- 1074) m \<le> 2 powi b"
    by (rule fl_bounds_powi [OF assms(1,2,3)]) simp
  moreover from this have "\<not> overflow_threshold \<le> fl 53 (- 1074) m"
    by (intro below_overflow_threshold [OF _ assms(4)]) simp
  ultimately show ?thesis by (simp add: round_double_def)
qed

lemma double_of_real_between:
  assumes "2 powi a \<le> x" "x \<le> 2 powi b" "- 1074 \<le> a" "b < 1024"
  shows "pos_between (double_of_real x) a b"
proof -
  have "0 < x" using assms(1) two_powi_pos [of a] by linarith
  then show ?thesis
    using round_double_between [OF assms] by (simp add: double_of_real_def)
qed

lemma dmul_between:
  assumes "pos_between x a b" "pos_between y a' b'" "- 1074 \<le> a + a'" "b + b' < 1024"
  shows "pos_between (dmul x y) (a + a') (b + b')"
proof -
  from assms(1) obtain m where m: "x = Finite False m" "2 powi a \<le> m" "m \<le> 2 powi b" "0 < m"
    by (rule pos_betweenE)
  from assms(2) obtain n where n: "y = Finite False n" "2 powi a' \<le> n" "n \<le> 2 powi b'" "0 < n"
    by (rule pos_betweenE)
  have "2 powi a * 2 powi a' \<le> m * n" using m n by (intro mult_mono) simp_all
  then have lo: "2 powi (a + a') \<le> m * n" by (simp add: power_int_add)
  have "m * n \<le> 2 powi b * 2 powi b'" using m n by (intro mult_mono) simp_all
  then have hi: "m * n \<le> 2 powi (b + b')" by (simp add: power_int_add)
  show ?thesis unfolding m n using round_double_between [OF lo hi assms(3,4)] by simp
qed

lemma ddiv_between:
  assumes "pos_between x a b" "pos_between y a' b'" "- 1074 \<le> a - b'" "b - a' < 1024"
  shows "pos_between (ddiv x y) (a - b') (b - a')"
proof -
  from assms(1) obtain m where m: "x = Finite False m" "2 powi a \<le> m" "m \<le> 2 powi b" "0 < m"
    by (rule pos_betweenE)
  from assms(2) obtain n where n: "y = Finite False n" "2 powi a' \<le> n" "n \<le> 2 powi b'" "0 < n"
    by (rule pos_betweenE)
  have "2 powi a / 2 powi b' \<le> m / n" using m n by (intro frac_le) simp_all
  then have lo: "2 powi (a - b') \<le> m / n" by (simp add: power_int_diff)
  have "m / n \<le> 2 powi b / 2 powi a'" using m n by (intro frac_le) simp_all
  then have hi: "m / n \<le> 2 powi (b - a')" by (simp add: power_int_diff)
  show ?thesis unfolding m n using round_double_between [OF lo hi assms(3,4)] n(4) by simp
qed

lemma two_powi_cube: "((2::real) powi a) ^ 3 = 2 powi (3 * a)"
proof -
  have "3 * a = a + (a + a)" by simp
  then have "(2::real) powi (3 * a) = 2 powi (a + (a + a))" by (rule arg_cong)
  also have "\<dots> = 2 powi a * 2 powi (a + a)" by (rule power_int_add) simp
  also have "2 powi (a + a) = (2::real) powi a * 2 powi a" by (rule power_int_add) simp
  finally show ?thesis by (simp add: power3_eq_cube)
qed

lemma dpow3_between:
  assumes "pos_between x a b" "- 1074 \<le> 3 * a" "3 * b < 1024"
  shows "pos_between (dpow x 3) (3 * a) (3 * b)"
proof -
  from assms(1) obtain m where m: "x = Finite False m" "2 powi a \<le> m" "m \<le> 2 powi b" "0 < m"
    by (rule pos_betweenE)
  have "(2 powi a) ^ 3 \<le> m ^ 3" using m by (intro power_mono) simp_all
  then have lo: "2 powi (3 * a) \<le> m ^ 3" by (simp only: two_powi_cube)
  have "m ^ 3 \<le> (2 powi b) ^ 3" using m by (intro power_mono) simp_all
  then have hi: "m ^ 3 \<le> 2 powi (3 * b)" by (simp only: two_powi_cube)
  show ?thesis unfolding m using round_double_between [OF lo hi assms(2,3)] by simp
qed

lemma pos_between_weaken:
  assumes "pos_between x a b" "a' \<le> a" "b \<le> b'"
  shows "pos_between x a' b'"
proof -
  from assms(1) obtain m where m: "x = Finite False m" "2 powi a \<le> m" "m \<le> 2 powi b" "0 < m"
    by (rule pos_betweenE)
  have "(2::real) powi a' \<le> 2 powi a" using assms(2) by (simp only: two_powi_le_iff)
  with m(2) have lo: "2 powi a' \<le> m" by linarith
  have "(2::real) powi b \<le> 2 powi b'" using assms(3) by (simp only: two_powi_le_iff)
  with m(3) have hi: "m \<le> 2 powi b'" by linarith
  show ?thesis unfolding m using lo hi by simp
qed

subsection \<open>bb in the binary64 reading\<close>

lemma c_between: "pos_between (double_of_real c) 34 35"
  by (rule double_of_real_between) (simp_all add: c_def)

lemma c2_between: "pos_between (double_of_real c2) 69 70"
  by (rule double_of_real_between) (simp_all add: c2_def)

lemma h_between: "pos_between (double_of_real h) (- 87) (- 86)"
  by (rule double_of_real_between) (simp_all add: h_def power_int_minus field_simps)

lemma kb_between: "pos_between (double_of_real kb) (- 53) (- 52)"
  by (rule double_of_real_between) (simp_all add: kb_def power_int_minus field_simps)

lemma two_between: "pos_between (double_of_real 2) 1 1"
  by (rule double_of_real_between) simp_all

lemma nonneg_round_double: "0 \<le> m \<Longrightarrow> nonneg (round_double False m)"
  by (simp add: round_double_def Let_def fl53_nonneg)

lemma nonneg_wf: "nonneg x \<Longrightarrow> wf_double x"
  by (cases x) simp_all

lemma pos_between_nonneg: "pos_between x a b \<Longrightarrow> nonneg x"
  by (erule pos_betweenE) simp

lemma dsub_Finite_one:
  assumes "0 \<le> a"
  shows "dsub (Finite s a) (Finite False 1) = double_of_real (valof (Finite s a) - 1)"
  using assms by (auto simp: dsub_def Let_def)

lemma dsub_one_right_mono:
  assumes "double_le x y" "wf_double x" "wf_double y"
  shows "double_le (dsub x (Finite False 1)) (dsub y (Finite False 1))"
proof (cases x; cases y)
  fix s a t b assume xy: "x = Finite s a" "y = Finite t b"
  with assms have ab: "0 \<le> a" "0 \<le> b" by simp_all
  from xy assms(1) have "valof (Finite s a) - 1 \<le> valof (Finite t b) - 1" by simp
  then show ?thesis
    unfolding xy dsub_Finite_one [OF ab(1)] dsub_Finite_one [OF ab(2)]
    by (rule double_of_real_mono)
next
  fix s t b assume xy: "x = Infinity s" "y = Finite t b"
  with assms have b: "0 \<le> b" and s: s by simp_all
  have "wf_double (double_of_real (valof (Finite t b) - 1))" by (rule wf_double_of_real)
  then show ?thesis unfolding xy dsub_Finite_one [OF b] using s
    by (cases "double_of_real (valof (Finite t b) - 1)") (simp_all add: dsub_def)
next
  fix s a t assume xy: "x = Finite s a" "y = Infinity t"
  with assms have a: "0 \<le> a" and t: "\<not> t" by simp_all
  have "wf_double (double_of_real (valof (Finite s a) - 1))" by (rule wf_double_of_real)
  then show ?thesis unfolding xy dsub_Finite_one [OF a] using t
    by (cases "double_of_real (valof (Finite s a) - 1)") (simp_all add: dsub_def)
next
  fix s t assume xy: "x = Infinity s" "y = Infinity t"
  with assms(1) show ?thesis by (auto simp: dsub_def)
qed (use assms in simp_all)

lemma ddiv_one_antimono:
  assumes "double_le x y" "nonneg x" "nonneg y"
  shows "double_le (ddiv (Finite False 1) y) (ddiv (Finite False 1) x)"
proof (cases x; cases y)
  fix s a t b assume xy: "x = Finite s a" "y = Finite t b"
  with assms have ab: "\<not> s" "\<not> t" "0 \<le> a" "a \<le> b" by simp_all
  show ?thesis
  proof (cases "a = 0")
    case True
    have "nonneg (round_double False (1 / b))" using ab by (intro nonneg_round_double) simp
    then show ?thesis unfolding xy using True ab
      by (cases "round_double False (1 / b)") simp_all
  next
    case False
    with ab have "0 < a" "0 < b" by simp_all
    then have "1 / b \<le> 1 / a" using ab(4) by (simp add: frac_le)
    then have "double_le (round_double False (1 / b)) (round_double False (1 / a))"
      using \<open>0 < a\<close> \<open>0 < b\<close> by (intro round_double_mono) simp_all
    then show ?thesis unfolding xy using \<open>0 < a\<close> \<open>0 < b\<close> ab by simp
  qed
next
  fix s a t assume xy: "x = Finite s a" "y = Infinity t"
  with assms have a: "\<not> s" "0 \<le> a" "\<not> t" by simp_all
  have "double_le (round_double False 0) (round_double False (1 / a))"
    using a by (intro round_double_mono) simp_all
  then show ?thesis unfolding xy using a by simp
next
  fix s t assume xy: "x = Infinity s" "y = Infinity t"
  with assms show ?thesis by simp
qed (use assms in simp_all)

lemma nonneg_ddiv_one: "nonneg x \<Longrightarrow> nonneg (ddiv (Finite False 1) x)"
  by (cases x) (auto simp: nonneg_round_double)

lemma dmul_pos_mono:
  assumes "double_le x y" "nonneg x" "nonneg y" "0 < p"
  shows "double_le (dmul (Finite False p) x) (dmul (Finite False p) y)"
proof (cases x; cases y)
  fix s a t b assume xy: "x = Finite s a" "y = Finite t b"
  with assms have ab: "\<not> s" "\<not> t" "0 \<le> a" "a \<le> b" by simp_all
  then have "double_le (round_double False (p * a)) (round_double False (p * b))"
    using assms(4) by (intro round_double_mono) simp_all
  then show ?thesis unfolding xy using ab by simp
next
  fix s a t assume xy: "x = Finite s a" "y = Infinity t"
  with assms have a: "\<not> s" "0 \<le> a" "\<not> t" by simp_all
  have "nonneg (round_double False (p * a))" using a assms(4) by (intro nonneg_round_double) simp
  then show ?thesis unfolding xy using a assms(4)
    by (cases "round_double False (p * a)") simp_all
next
  fix s t assume xy: "x = Infinity s" "y = Infinity t"
  with assms show ?thesis by simp
qed (use assms in simp_all)

lemma nonneg_dsub_dexp:
  assumes "pos_between x a b"
  shows "nonneg (dsub (dexp x) (Finite False 1))"
proof -
  from assms obtain m where m: "x = Finite False m" "0 < m" by (rule pos_betweenE)
  let ?e = "fl 53 (- 1074) (exp m)"
  have "fl 53 (- 1074) 1 \<le> ?e" using m(2) by (intro fl53_mono) simp
  then have e: "1 \<le> ?e" using fl_of_int [of 1 53 "- 1074"] by simp
  show ?thesis
  proof (cases "overflow_threshold \<le> ?e")
    case True
    then show ?thesis unfolding m by (simp add: round_double_def dsub_def)
  next
    case False
    then have "dexp x = Finite False ?e" unfolding m by (simp add: round_double_def)
    moreover have "0 \<le> ?e" using e by linarith
    ultimately have "dsub (dexp x) (Finite False 1) = double_of_real (?e - 1)"
      by (simp add: dsub_Finite_one)
    also have "\<dots> = round_double False (?e - 1)"
      using e by (simp add: double_of_real_def)
    finally show ?thesis using e by (simp add: nonneg_round_double)
  qed
qed

lemma dmul_const_mono:
  assumes "pos_between k a b" "pos_between x a' b'" "pos_between y a' b'" "valof x \<le> valof y"
  shows "double_le (dmul k x) (dmul k y)"
proof -
  from assms(1) obtain q where q: "k = Finite False q" "0 < q" by (rule pos_betweenE)
  from assms(2) obtain m where m: "x = Finite False m" "0 < m" by (rule pos_betweenE)
  from assms(3) obtain n where n: "y = Finite False n" "0 < n" by (rule pos_betweenE)
  from assms(4) have "q * m \<le> q * n" unfolding m n using q(2) by simp
  then show ?thesis unfolding q m n using q(2) m(2) n(2)
    by (simp del: valof.simps) (intro round_double_mono, simp_all)
qed

lemma ddiv_const_antimono:
  assumes "pos_between k a b" "pos_between x a' b'" "pos_between y a' b'" "double_le x y"
  shows "double_le (ddiv k y) (ddiv k x)"
proof -
  from assms(1) obtain q where q: "k = Finite False q" "0 < q" by (rule pos_betweenE)
  from assms(2) obtain m where m: "x = Finite False m" "0 < m" by (rule pos_betweenE)
  from assms(3) obtain n where n: "y = Finite False n" "0 < n" by (rule pos_betweenE)
  from assms(4) have "m \<le> n" unfolding m n by simp
  then have "q / n \<le> q / m" using q(2) m(2) by (simp add: frac_le)
  then have "double_le (round_double False (q / n)) (round_double False (q / m))"
    using q(2) m(2) n(2) by (intro round_double_mono) simp_all
  then show ?thesis unfolding q m n using m(2) n(2) by simp
qed

lemma bb_double_mono:
  assumes "pos_between T1 (- 64) 64" "pos_between T2 (- 64) 64" "pos_between lam (- 64) 64"
    and "valof T1 \<le> valof T2"
  shows "double_le (bb_double T1 lam) (bb_double T2 lam)"
proof -
  let ?nu = "ddiv (double_of_real c) lam"
  let ?P = "ddiv (dmul (dmul (double_of_real 2) (double_of_real h)) (dpow ?nu 3)) (double_of_real c2)"
  let ?A = "dmul (double_of_real h) ?nu"
  let ?t = "\<lambda>T. dmul (double_of_real kb) T"
  let ?x = "\<lambda>T. ddiv ?A (?t T)"
  let ?D = "\<lambda>T. dsub (dexp (?x T)) (Finite False 1)"
  have nu: "pos_between ?nu (34 - 64) (35 - (- 64))"
    by (rule ddiv_between [OF c_between assms(3)]) simp_all
  have pw: "pos_between (dpow ?nu 3) (3 * (34 - 64)) (3 * (35 - (- 64)))"
    by (rule dpow3_between [OF nu]) simp_all
  have th: "pos_between (dmul (double_of_real 2) (double_of_real h)) (1 + (- 87)) (1 + (- 86))"
    by (rule dmul_between [OF two_between h_between]) simp_all
  have num: "pos_between (dmul (dmul (double_of_real 2) (double_of_real h)) (dpow ?nu 3))
               (1 + (- 87) + 3 * (34 - 64)) (1 + (- 86) + 3 * (35 - (- 64)))"
    by (rule dmul_between [OF th pw]) simp_all
  have P: "pos_between ?P (1 + (- 87) + 3 * (34 - 64) - 70) (1 + (- 86) + 3 * (35 - (- 64)) - 69)"
    by (rule ddiv_between [OF num c2_between]) simp_all
  then obtain p where p: "?P = Finite False p" "0 < p" by (rule pos_betweenE)
  have A: "pos_between ?A (- 87 + (34 - 64)) (- 86 + (35 - (- 64)))"
    by (rule dmul_between [OF h_between nu]) simp_all
  have t: "pos_between (?t T) (- 53 + (- 64)) (- 52 + 64)" if "pos_between T (- 64) 64" for T
    by (rule dmul_between [OF kb_between that]) simp_all
  have x: "pos_between (?x T) (- 87 + (34 - 64) - (- 52 + 64)) (- 86 + (35 - (- 64)) - (- 53 + (- 64)))"
    if "pos_between T (- 64) 64" for T
    by (rule ddiv_between [OF A t [OF that]]) simp_all
  have "double_le (?t T1) (?t T2)"
    by (rule dmul_const_mono [OF kb_between assms(1,2,4)])
  then have "double_le (?x T2) (?x T1)"
    by (rule ddiv_const_antimono [OF A t [OF assms(1)] t [OF assms(2)]])
  then have "double_le (dexp (?x T2)) (dexp (?x T1))"
    by (rule dexp_mono)
       (rule nonneg_wf, rule pos_between_nonneg, rule x, fact)+
  then have "double_le (?D T2) (?D T1)"
    by (rule dsub_one_right_mono)
       (rule wf_dexp, rule nonneg_wf, rule pos_between_nonneg, rule x, fact)+
  then have "double_le (ddiv (Finite False 1) (?D T1)) (ddiv (Finite False 1) (?D T2))"
    by (rule ddiv_one_antimono) (rule nonneg_dsub_dexp, rule x, fact)+
  then have "double_le (dmul (Finite False p) (ddiv (Finite False 1) (?D T1)))
                       (dmul (Finite False p) (ddiv (Finite False 1) (?D T2)))"
    by (rule dmul_pos_mono)
       ((rule nonneg_ddiv_one, rule nonneg_dsub_dexp, rule x, fact)+, rule p(2))
  then show ?thesis
    unfolding bb_double_def Let_def p(1) [symmetric] by simp
qed

lemma exp_of_nat_ge: "(2::real) ^ n \<le> exp (of_nat n)"
proof -
  have "(2::real) \<le> exp 1" using exp_ge_add_one_self [of "1::real"] by simp
  then have "(2::real) ^ n \<le> exp 1 ^ n" by (intro power_mono) simp_all
  also have "\<dots> = exp (of_nat n * 1)" by (rule exp_of_nat_mult [symmetric])
  finally show ?thesis by simp
qed

lemma exp_overflows:
  assumes "2 powi 11 \<le> (m::real)"
  shows "overflow_threshold \<le> fl 53 (- 1074) (exp m)"
proof -
  have "(2::real) powi 10 \<le> 2 powi 11" by (simp only: two_powi_le_iff)
  with assms have "2 powi 10 \<le> m" by linarith
  then have "of_nat 1024 \<le> m" by simp
  then have "exp (of_nat 1024) \<le> exp m" by (simp only: exp_le_cancel_iff)
  with exp_of_nat_ge [of 1024] have "(2::real) ^ 1024 \<le> exp m" by linarith
  moreover have "(2::real) powi 1024 = 2 ^ 1024"
    using power_int_of_nat [of "2::real" 1024] by (simp only: of_nat_numeral)
  ultimately have "2 powi 1024 \<le> exp m" by (simp only:)
  then have "2 powi 1024 \<le> fl 53 (- 1074) (exp m)"
    by (intro fl_ge_powi) simp_all
  then show ?thesis by (simp only: overflow_threshold_def)
qed

lemma bb_double_zero:
  assumes "pos_between T (- 64) 8" "pos_between lam (- 64) (- 20)"
  shows "bb_double T lam = Finite False 0"
proof -
  let ?nu = "ddiv (double_of_real c) lam"
  let ?P = "ddiv (dmul (dmul (double_of_real 2) (double_of_real h)) (dpow ?nu 3)) (double_of_real c2)"
  let ?A = "dmul (double_of_real h) ?nu"
  let ?t = "dmul (double_of_real kb) T"
  let ?x = "ddiv ?A ?t"
  have nu: "pos_between ?nu (34 - (- 20)) (35 - (- 64))"
    by (rule ddiv_between [OF c_between assms(2)]) simp_all
  have pw: "pos_between (dpow ?nu 3) (3 * (34 - (- 20))) (3 * (35 - (- 64)))"
    by (rule dpow3_between [OF nu]) simp_all
  have th: "pos_between (dmul (double_of_real 2) (double_of_real h)) (1 + (- 87)) (1 + (- 86))"
    by (rule dmul_between [OF two_between h_between]) simp_all
  have num: "pos_between (dmul (dmul (double_of_real 2) (double_of_real h)) (dpow ?nu 3))
               (1 + (- 87) + 3 * (34 - (- 20))) (1 + (- 86) + 3 * (35 - (- 64)))"
    by (rule dmul_between [OF th pw]) simp_all
  have P: "pos_between ?P (1 + (- 87) + 3 * (34 - (- 20)) - 70) (1 + (- 86) + 3 * (35 - (- 64)) - 69)"
    by (rule ddiv_between [OF num c2_between]) simp_all
  then obtain p where p: "?P = Finite False p" "0 < p" by (rule pos_betweenE)
  have A: "pos_between ?A (- 87 + (34 - (- 20))) (- 86 + (35 - (- 64)))"
    by (rule dmul_between [OF h_between nu]) simp_all
  have t: "pos_between ?t (- 53 + (- 64)) (- 52 + 8)"
    by (rule dmul_between [OF kb_between assms(1)]) simp_all
  have "pos_between ?x (- 87 + (34 - (- 20)) - (- 52 + 8)) (- 86 + (35 - (- 64)) - (- 53 + (- 64)))"
    by (rule ddiv_between [OF A t]) simp_all
  then obtain m where m: "?x = Finite False m" "2 powi (- 87 + (34 - (- 20)) - (- 52 + 8)) \<le> m"
    by (rule pos_betweenE)
  from m(2) have "2 powi 11 \<le> m" by simp
  then have "overflow_threshold \<le> fl 53 (- 1074) (exp m)" by (rule exp_overflows)
  then have "dexp ?x = Infinity False" unfolding m(1) by (simp add: round_double_def)
  then show ?thesis
    unfolding bb_double_def Let_def by (simp add: p(1) dsub_def)
qed

subsection \<open>The modulation at a zero pixel\<close>






lemma datan2_zero_zero:
  "datan2 (Finite sy 0) (Finite sx 0) = round_double sy (if sx then pi else 0)"
  by simp







lemma rnd32_half [simp]: "rnd32 (1 / 2) = 1 / 2"
  using rnd32_powi [of "- 1"] by (simp add: power_int_minus)

section \<open>The end-to-end scenario\<close>

text \<open>
  Claim C1. With \<open>dim = 2\<close>, \<open>pixel_size = 1\<close> and \<open>elliptic\<close> false (the bounds \<open>-0.5\<close> and
  \<open>0.5\<close> are the ones \<open>grid\<close> passes to \<open>linspace\<close>), the axis is \<open>[-1, 0]\<close>, the planes are
  \<open>xx = [[-1, 0], [-1, 0]]\<close> and \<open>yy = [[-1, -1], [0, 0]]\<close> in row-major order, and the radius
  of these planes is \<open>[[sqrt 2, 1], [1, 0]]\<close>, whatever \<open>pa\<close> and \<open>elong\<close> are.
\<close>

theorem pipeline_dim2:
  "linspace (- 0.5) 0.5 2 (2 * 1) = [- 1.0, 0.0] \<and>
   xx (grid 2 1 pa elong 0) = [- 1, 0, - 1, 0] \<and>
   yy (grid 2 1 pa elong 0) = [- 1, - 1, 0, 0] \<and>
   radius (xx (grid 2 1 pa elong 0)) (yy (grid 2 1 pa elong 0)) 2 = [sqrt 2, 1.0, 1.0, 0.0]"
proof -
  have ax: "linspace (- 0.5) 0.5 2 (2 * 1) = [- 1.0, 0.0]"
    by (simp add: linspace_def malloc_double_def linspace_loop.simps numeral_2_eq_2)
  have g: "grid 2 1 pa elong 0 = \<lparr>xx = [- 1, 0, - 1, 0], yy = [- 1, - 1, 0, 0]\<rparr>"
    by (simp add: grid_def meshgrid_def linspace_def malloc_double_def linspace_loop.simps
        meshgrid_outer.simps meshgrid_inner.simps numeral_2_eq_2 eval_nat_numeral)
  have r: "radius [- 1, 0, - 1, 0] [- 1, - 1, 0, 0] 2 = [sqrt 2, 1.0, 1.0, 0.0]"
    by (simp add: radius_def malloc_double_def radius_loop.simps eval_nat_numeral)
  from g have x: "xx (grid 2 1 pa elong 0) = [- 1, 0, - 1, 0]"
    and y: "yy (grid 2 1 pa elong 0) = [- 1, - 1, 0, 0]" by simp_all
  show ?thesis unfolding x y by (intro conjI ax r refl)
qed

section \<open>The axis\<close>




section \<open>The coordinate planes\<close>

text \<open>
  Claim C4. For \<open>dim \<ge> 1\<close> and \<open>elliptic\<close> false, both planes have \<open>dim \<cdot> dim\<close> cells, and for
  every row \<open>i\<close> and column \<open>j\<close> below \<open>dim\<close>: \<open>xx[i][j]\<close> is \<open>axis[j]\<close> (so every row of
  \<open>xx\<close> is the axis), \<open>yy[i][j]\<close> is \<open>axis[i]\<close>, and \<open>xx[i][j] = yy[j][i]\<close>. The axis is the
  one \<open>grid\<close> builds: \<open>linspace (-0.5) 0.5 dim (dim \<cdot> pixel_size)\<close>.
\<close>

theorem grid_broadcast:
  assumes "1 \<le> dim'" "int i < dim'" "int j < dim'"
  shows "length (xx (grid dim' pixel_size pa elong 0)) = nat (dim' * dim') \<and>
         length (yy (grid dim' pixel_size pa elong 0)) = nat (dim' * dim') \<and>
         xx (grid dim' pixel_size pa elong 0) ! (i * nat dim' + j)
           = linspace (- 0.5) 0.5 dim' (real_of_int dim' * pixel_size) ! j \<and>
         yy (grid dim' pixel_size pa elong 0) ! (i * nat dim' + j)
           = linspace (- 0.5) 0.5 dim' (real_of_int dim' * pixel_size) ! i \<and>
         xx (grid dim' pixel_size pa elong 0) ! (i * nat dim' + j)
           = yy (grid dim' pixel_size pa elong 0) ! (j * nat dim' + i)"
proof -
  from assms have i: "i < nat dim'" and j: "j < nat dim'" by simp_all
  show ?thesis
    by (simp add: grid_def Let_def length_meshgrid nth_meshgrid_cell [OF i j]
        nth_meshgrid_cell [OF j i])
qed

text \<open>On the \<open>2\<times>2\<close> grid, cell \<open>(0, 1)\<close> of \<open>xx\<close> is \<open>axis[1]\<close> and equals cell \<open>(1, 0)\<close> of \<open>yy\<close>.\<close>

theorem grid_broadcast_witness:
  "xx (grid 2 1 0 1 0) ! 1 = linspace (- 0.5) 0.5 2 2 ! 1 \<and>
   yy (grid 2 1 0 1 0) ! 1 = linspace (- 0.5) 0.5 2 2 ! 0 \<and>
   xx (grid 2 1 0 1 0) ! 1 = yy (grid 2 1 0 1 0) ! 2"
  using grid_broadcast [of 2 0 1 1 0 1] by simp

text \<open>
  Claim C2. Let \<open>X\<close> and \<open>Y\<close> be the two meshes of the axis (\<open>X\<close> varies with the column,
  \<open>Y\<close> with the row). When \<open>elliptic\<close> is true (not \<open>0\<close>), every pixel \<open>k\<close> of the planes that
  \<open>grid\<close> returns is updated in sequence: \<open>xx' = X \<cdot> cos pa - Y \<cdot> sin pa\<close>, then
  \<open>yy' = (xx' \<cdot> sin pa + Y \<cdot> cos pa) / elong\<close> with the new \<open>xx'\<close>. When \<open>elliptic\<close> is false
  the planes are \<open>X\<close> and \<open>Y\<close> themselves, neither rotated nor divided by \<open>elong\<close>. Both planes
  have \<open>dim \<cdot> dim\<close> cells in either case.
\<close>

theorem grid_elliptic_sequential:
  "(let axis = linspace (- 0.5) 0.5 dim' (real_of_int dim' * pixel_size);
        X = meshgrid axis dim' 1;
        Y = meshgrid axis dim' 0;
        g = grid dim' pixel_size pa elong elliptic
    in length (xx g) = nat (dim' * dim') \<and> length (yy g) = nat (dim' * dim') \<and>
       (elliptic \<noteq> 0 \<and> int k < dim' * dim' \<longrightarrow>
          xx g ! k = X ! k * cos pa - Y ! k * sin pa \<and>
          yy g ! k = (xx g ! k * sin pa + Y ! k * cos pa) / elong) \<and>
       (elliptic = 0 \<longrightarrow> xx g = X \<and> yy g = Y))"
proof (cases "elliptic = 0")
  case True
  then show ?thesis
    by (simp add: grid_def Let_def length_meshgrid)
next
  case False
  show ?thesis
  proof (cases "int k < dim' * dim'")
    case True
    then have "k < nat (dim' * dim')" by simp
    with False True show ?thesis
      by (simp add: grid_def Let_def nth_xx_grid_loop nth_yy_grid_loop length_meshgrid
          length_xx_grid_loop length_yy_grid_loop)
  next
    case False
    with \<open>elliptic \<noteq> 0\<close> show ?thesis
      by (simp add: grid_def Let_def length_meshgrid length_xx_grid_loop length_yy_grid_loop)
  qed
qed

text \<open>
  On the one-pixel grid with \<open>pixel_size = 2\<close> both coordinates are \<open>-1\<close>. A quarter turn
  (\<open>pa = \<pi>/2\<close>, \<open>elong = 1\<close>) gives \<open>xx' = 1\<close> and \<open>yy' = 1\<close>: the value \<open>yy'\<close> is computed from
  \<open>xx' = 1\<close>, and differs from \<open>-1\<close>, which the original \<open>xx = -1\<close> would give. With
  \<open>elliptic = 0\<close> the same call returns the planes \<open>[-1]\<close> and \<open>[-1]\<close>.
\<close>

lemma mesh_1:
  "meshgrid (linspace (- (1 / 2)) (1 / 2) 1 2) 1 1 = [- 1] \<and>
   meshgrid (linspace (- (1 / 2)) (1 / 2) 1 2) 1 0 = [- 1]"
  by (simp add: meshgrid_def linspace_def malloc_double_def linspace_loop.simps
        meshgrid_outer.simps meshgrid_inner.simps)

theorem grid_elliptic_sequential_witness:
  "xx (grid 1 2 (pi / 2) 1 1) ! 0 = 1 \<and> yy (grid 1 2 (pi / 2) 1 1) ! 0 = 1 \<and>
   yy (grid 1 2 (pi / 2) 1 1) ! 0 \<noteq> ((- 1) * sin (pi / 2) + (- 1) * cos (pi / 2)) / 1 \<and>
   xx (grid 1 2 (pi / 2) 1 0) = [- 1] \<and> yy (grid 1 2 (pi / 2) 1 0) = [- 1]"
proof -
  have x: "xx (grid 1 2 (pi / 2) 1 1) ! 0 = 1"
    using grid_elliptic_sequential [of 1 2 "pi / 2" 1 1 0]
    by (simp add: Let_def mesh_1)
  have y: "yy (grid 1 2 (pi / 2) 1 1) ! 0 = 1"
    using grid_elliptic_sequential [of 1 2 "pi / 2" 1 1 0] x
    by (simp add: Let_def mesh_1)
  have u: "xx (grid 1 2 (pi / 2) 1 0) = [- 1] \<and> yy (grid 1 2 (pi / 2) 1 0) = [- 1]"
    using grid_elliptic_sequential [of 1 2 "pi / 2" 1 0 0]
    by (simp add: Let_def mesh_1)
  show ?thesis using x y u by simp
qed

section \<open>Intensity\<close>

text \<open>
  Claim C6. For \<open>dim \<ge> 1\<close>, a temperature field of \<open>dim \<cdot> dim\<close> cells and a wavelength
  \<open>\<lambda> > 0\<close>, the intensity field has \<open>dim \<cdot> dim\<close> cells and cell \<open>i\<close> is
  \<open>bb(T[i], \<lambda>) \<cdot> pixel_size\<^sup>2 \<cdot> bb_to_jy\<close>, where \<open>bb_to_jy\<close> is \<open>10\<^sup>2\<^sup>3\<close>.
\<close>

theorem intensity_pointwise:
  assumes "1 \<le> dim'" "length temperature_profile = nat (dim' * dim')" "0 < wavelength"
  shows "length (intensity temperature_profile wavelength pixel_size dim') = nat (dim' * dim') \<and>
         (\<forall>i. int i < dim' * dim' \<longrightarrow>
            intensity temperature_profile wavelength pixel_size dim' ! i
              = bb (temperature_profile ! i) wavelength * pixel_size\<^sup>2 * bb_to_jy) \<and>
         bb_to_jy = 10 ^ 23"
  by (simp add: intensity_def length_intensity_loop nth_intensity_loop length_malloc_double
      bb_to_jy_def)

text \<open>A field of one pixel at 300 K, wavelength 1 cm, pixel size 2.\<close>

theorem intensity_pointwise_witness:
  "length (intensity [300] 1 2 1) = 1 \<and> intensity [300] 1 2 1 ! 0 = bb 300 1 * 2\<^sup>2 * bb_to_jy"
  using intensity_pointwise [of 1 "[300]" 1 2] by simp

section \<open>Azimuthal modulation\<close>

text \<open>
  Claim C9. For coordinate planes of \<open>dim \<cdot> dim\<close> cells, every amplitude \<open>a\<close> and phase \<open>\<phi>\<close>,
  the output at every pixel \<open>i\<close> is \<open>a \<cdot> cos (atan2 (yy[i], xx[i]) - \<phi>)\<close> and its magnitude is at
  most \<open>|a|\<close>.
\<close>

theorem azimuthal_modulation_bounded:
  assumes "length xs = nat (dim' * dim')" "length ys = nat (dim' * dim')" "int i < dim' * dim'"
  shows "azimuthal_modulation xs ys a phi dim' ! i = a * cos (atan2 (ys ! i) (xs ! i) - phi) \<and>
         \<bar>azimuthal_modulation xs ys a phi dim' ! i\<bar> \<le> \<bar>a\<bar>"
proof -
  from assms(3) have "i < nat (dim' * dim')" by simp
  then have eq: "azimuthal_modulation xs ys a phi dim' ! i
                   = a * cos (atan2 (ys ! i) (xs ! i) - phi)"
    using assms(3)
    by (simp add: azimuthal_modulation_def nth_azimuthal_modulation_loop length_malloc_double)
  have "\<bar>a * cos (atan2 (ys ! i) (xs ! i) - phi)\<bar> = \<bar>a\<bar> * \<bar>cos (atan2 (ys ! i) (xs ! i) - phi)\<bar>"
    by (rule abs_mult)
  also have "\<dots> \<le> \<bar>a\<bar> * 1"
    by (intro mult_left_mono abs_cos_le_one abs_ge_zero)
  finally show ?thesis using eq by simp
qed

text \<open>One pixel at \<open>(1, 1)\<close> with amplitude \<open>3\<close>.\<close>

theorem azimuthal_modulation_bounded_witness:
  "\<bar>azimuthal_modulation [1] [1] 3 0 1 ! 0\<bar> \<le> 3"
proof -
  have "\<bar>azimuthal_modulation [1] [1] 3 0 1 ! 0\<bar> \<le> \<bar>3\<bar>"
    by (rule azimuthal_modulation_bounded [THEN conjunct2]) simp_all
  then show ?thesis by simp
qed






section \<open>Blackbody radiance\<close>

lemma c_pos: "0 < c" by (simp add: c_def)
lemma c2_pos: "0 < c2" by (simp add: c2_def)
lemma h_pos: "0 < h" by (simp add: h_def)
lemma kb_pos: "0 < kb" by (simp add: kb_def)

lemma c_squared: "c\<^sup>2 = 898755178736817640000"
  by (simp add: c_def power2_eq_square)

lemma c2_value: "c2 = 898755179000000000000"
  by (simp add: c2_def)

lemma c2_gt_c_squared: "c\<^sup>2 < c2"
  by (simp add: c_squared c2_value)

lemma bb_prefactor_pos:
  assumes "0 < wavelength"
  shows "0 < 2.0 * h * (c / wavelength) ^ 3 / c2"
  using assms c_pos c2_pos h_pos by simp

lemma bb_exponent_pos:
  assumes "0 < wavelength" "0 < temperature"
  shows "0 < h * (c / wavelength) / (kb * temperature)"
  using assms c_pos h_pos kb_pos by simp

lemma bb_exponent_antimono:
  assumes "0 < wavelength" "0 < T1" "T1 < T2"
  shows "h * (c / wavelength) / (kb * T2) < h * (c / wavelength) / (kb * T1)"
proof -
  have n: "0 < h * (c / wavelength)" using assms(1) c_pos h_pos by simp
  have lt: "kb * T1 < kb * T2" using assms(3) kb_pos by simp
  have p1: "0 < kb * T1" using assms(2) kb_pos by simp
  with lt have p2: "0 < kb * T2" by simp
  show ?thesis
    by (rule divide_strict_left_mono [OF lt n mult_pos_pos [OF p2 p1]])
qed

text \<open>
  In the exact reading \<open>bb\<close> is strictly increasing in the temperature.
\<close>

lemma bb_exact_strict_mono:
  assumes "0 < wavelength" "0 < T1" "T1 < T2"
  shows "bb T1 wavelength < bb T2 wavelength"
proof -
  let ?x1 = "h * (c / wavelength) / (kb * T1)"
  let ?x2 = "h * (c / wavelength) / (kb * T2)"
  from assms have T2: "0 < T2" by simp
  have x2: "0 < ?x2" by (rule bb_exponent_pos [OF assms(1) T2])
  have "?x2 < ?x1" by (rule bb_exponent_antimono [OF assms])
  then have "exp ?x2 - 1 < exp ?x1 - 1" by simp
  moreover from x2 have "0 < exp ?x2 - 1" by simp
  ultimately have "1 / (exp ?x1 - 1) < 1 / (exp ?x2 - 1)"
    by (simp add: frac_less2)
  then have "(2.0 * h * (c / wavelength) ^ 3 / c2) * (1 / (exp ?x1 - 1))
           < (2.0 * h * (c / wavelength) ^ 3 / c2) * (1 / (exp ?x2 - 1))"
    using bb_prefactor_pos [OF assms(1)] by (simp only: mult_less_cancel_left_pos)
  then show ?thesis by (simp add: bb_def Let_def)
qed


text \<open>
  Claim C8, as amended, in the binary64 reading. For a wavelength and temperatures
  \<open>T1 < T2\<close>, all between \<open>2\<^sup>-\<^sup>6\<^sup>4\<close> and \<open>2\<^sup>6\<^sup>4\<close>, \<open>bb(T1, \<lambda>) \<le> bb(T2, \<lambda>)\<close>. The inequality is
  not strict: where \<open>exp\<close> overflows, as it does for every \<open>\<lambda> \<le> 2\<^sup>-\<^sup>2\<^sup>0\<close> cm and \<open>T \<le> 2\<^sup>8\<close> K,
  \<open>bb\<close> returns exactly \<open>0\<close>.
\<close>

theorem bb_double_monotone:
  assumes "pos_between T1 (- 64) 64" "pos_between T2 (- 64) 64"
    and "pos_between wavelength (- 64) 64" "valof T1 < valof T2"
  shows "double_le (bb_double T1 wavelength) (bb_double T2 wavelength) \<and>
         (pos_between T2 (- 64) 8 \<and> pos_between wavelength (- 64) (- 20) \<longrightarrow>
            bb_double T1 wavelength = Finite False 0 \<and> bb_double T2 wavelength = Finite False 0)"
proof (intro conjI impI)
  from assms(4) have "valof T1 \<le> valof T2" by simp
  then show "double_le (bb_double T1 wavelength) (bb_double T2 wavelength)"
    by (rule bb_double_mono [OF assms(1-3)])
next
  assume h: "pos_between T2 (- 64) 8 \<and> pos_between wavelength (- 64) (- 20)"
  from assms(1) obtain m where m: "T1 = Finite False m" "2 powi (- 64) \<le> m" by (rule pos_betweenE)
  from h obtain n where n: "T2 = Finite False n" "n \<le> 2 powi 8" by (blast elim: pos_betweenE)
  from assms(4) m n have "m \<le> 2 powi 8" by simp
  with m have T1: "pos_between T1 (- 64) 8" by simp
  from h show "bb_double T1 wavelength = Finite False 0"
    by (intro bb_double_zero T1) simp
  from h show "bb_double T2 wavelength = Finite False 0"
    by (intro bb_double_zero) simp_all
qed

lemma in_range_100: "pos_between (Finite False 100) (- 64) 8" "pos_between (Finite False 100) (- 64) 64"
  by (simp_all add: power_int_minus)

lemma in_range_200: "pos_between (Finite False 200) (- 64) 8" "pos_between (Finite False 200) (- 64) 64"
  by (simp_all add: power_int_minus)

lemma in_range_lam: "pos_between (Finite False (2 powi (- 20))) (- 64) (- 20)"
  "pos_between (Finite False (2 powi (- 20))) (- 64) 64"
  by simp_all

text \<open>At the wavelength \<open>2\<^sup>-\<^sup>2\<^sup>0\<close> cm, 100 K against 200 K.\<close>

theorem bb_double_monotone_witness:
  "double_le (bb_double (Finite False 100) (Finite False (2 powi (- 20))))
             (bb_double (Finite False 200) (Finite False (2 powi (- 20)))) \<and>
   bb_double (Finite False 100) (Finite False (2 powi (- 20))) = Finite False 0"
proof -
  have "valof (Finite False 100) < valof (Finite False 200)" by simp
  from bb_double_monotone [OF in_range_100(2) in_range_200(2) in_range_lam(2) this]
  show ?thesis using in_range_200(1) in_range_lam(1) by blast
qed

text \<open>
  The claim as it was written fails there: \<open>100 < 200\<close>, both values of \<open>bb\<close> are \<open>0\<close>, and
  the first is not smaller than the second.
\<close>

theorem bb_strict_counterexample:
  "valof (Finite False 100) < valof (Finite False 200) \<and>
   bb_double (Finite False 100) (Finite False (2 powi (- 20))) = Finite False 0 \<and>
   bb_double (Finite False 200) (Finite False (2 powi (- 20))) = Finite False 0 \<and>
   \<not> double_lt (bb_double (Finite False 100) (Finite False (2 powi (- 20))))
                (bb_double (Finite False 200) (Finite False (2 powi (- 20))))"
proof -
  have a: "bb_double (Finite False 100) (Finite False (2 powi (- 20))) = Finite False 0"
    by (rule bb_double_zero [OF in_range_100(1) in_range_lam(1)])
  have b: "bb_double (Finite False 200) (Finite False (2 powi (- 20))) = Finite False 0"
    by (rule bb_double_zero [OF in_range_200(1) in_range_lam(1)])
  show ?thesis unfolding a b by (simp add: double_lt_def)
qed

lemma bb_planck_ratio: "bb T lam = (c\<^sup>2 / c2) * planck_spec T lam"
proof -
  have "c \<noteq> 0" using c_pos by simp
  then show ?thesis
    by (simp add: bb_def planck_spec_def Let_def)
qed

lemma planck_spec_pos:
  assumes "0 < T" "0 < lam"
  shows "0 < planck_spec T lam"
proof -
  have "0 < exp (h * (c / lam) / (kb * T)) - 1"
    using bb_exponent_pos [OF assms(2) assms(1)] by simp
  moreover have "0 < 2 * h * (c / lam) ^ 3 / c\<^sup>2"
    using assms(2) c_pos h_pos by simp
  ultimately have "0 < (2 * h * (c / lam) ^ 3 / c\<^sup>2) * (1 / (exp (h * (c / lam) / (kb * T)) - 1))"
    by (intro mult_pos_pos) simp_all
  then show ?thesis
    by (simp only: planck_spec_def Let_def)
qed

text \<open>
  Claim C5, as amended. For \<open>T > 0\<close> and \<open>\<lambda> > 0\<close>, \<open>bb\<close> returns
  \<open>(2 h \<nu>\<^sup>3 / c2) \<cdot> 1 / (exp (h \<nu> / (k T)) - 1)\<close> with \<open>\<nu> = c / \<lambda>\<close>, where the denominator
  \<open>c2 = 8.98755179e20\<close> is a constant of its own: the square of \<open>c\<close> is
  \<open>8.9875517873681764e20\<close>. So \<open>bb\<close> is Planck's law times \<open>c\<^sup>2 / c2\<close>, which is below \<open>1\<close> by
  less than \<open>3e-10\<close>, and \<open>bb(T, \<lambda>)\<close> is strictly smaller than Planck's \<open>B(T, \<lambda>)\<close>.
\<close>

theorem bb_uses_rounded_c2:
  assumes "0 < T" "0 < lam"
  shows "bb T lam = (2 * h * (c / lam) ^ 3 / c2) * (1 / (exp (h * (c / lam) / (kb * T)) - 1)) \<and>
         c2 = 8.98755179 * 10 ^ 20 \<and>
         c\<^sup>2 = 8.9875517873681764 * 10 ^ 20 \<and>
         bb T lam = (c\<^sup>2 / c2) * planck_spec T lam \<and>
         bb T lam < planck_spec T lam \<and>
         \<bar>c\<^sup>2 / c2 - 1\<bar> < 3 / 10 ^ 10"
proof (intro conjI)
  show "bb T lam = (2 * h * (c / lam) ^ 3 / c2) * (1 / (exp (h * (c / lam) / (kb * T)) - 1))"
    by (simp add: bb_def Let_def)
  show "c2 = 8.98755179 * 10 ^ 20" by (simp add: c2_def)
  show "c\<^sup>2 = 8.9875517873681764 * 10 ^ 20" by (simp add: c_squared)
  show "bb T lam = (c\<^sup>2 / c2) * planck_spec T lam" by (rule bb_planck_ratio)
  have "c\<^sup>2 / c2 < 1" using c2_gt_c_squared c2_pos by simp
  then have "(c\<^sup>2 / c2) * planck_spec T lam < 1 * planck_spec T lam"
    using planck_spec_pos [OF assms] by (simp only: mult_less_cancel_right_pos)
  then show "bb T lam < planck_spec T lam" by (simp add: bb_planck_ratio)
  show "\<bar>c\<^sup>2 / c2 - 1\<bar> < 3 / 10 ^ 10"
    by (simp add: c_squared c2_value)
qed

text \<open>At 300 K and 1 cm.\<close>

theorem bb_uses_rounded_c2_witness: "bb 300 1 < planck_spec 300 1"
  using bb_uses_rounded_c2 [of 300 1] by simp

text \<open>
  The claim as it was written fails: \<open>bb\<close> is not Planck's law with \<open>c\<^sup>2\<close> at 300 K and
  1 cm, and \<open>c2\<close> is not the square of \<open>c\<close>.
\<close>

theorem bb_not_planck_counterexample: "bb 300 1 \<noteq> planck_spec 300 1 \<and> c2 \<noteq> c\<^sup>2"
proof -
  have "0 < planck_spec 300 1" by (rule planck_spec_pos) simp_all
  moreover have "c\<^sup>2 / c2 \<noteq> 1" by (simp add: c_squared c2_value)
  ultimately have "(c\<^sup>2 / c2) * planck_spec 300 1 \<noteq> 1 * planck_spec 300 1"
    by (simp only: mult_cancel_right) simp
  then have "bb 300 1 \<noteq> planck_spec 300 1"
    by (simp add: bb_planck_ratio)
  moreover have "c2 \<noteq> c\<^sup>2" by (simp add: c_squared c2_value)
  ultimately show ?thesis by simp
qed

section \<open>Optical thickness\<close>

lemma nth_optical_thickness:
  assumes "int i < dim' * dim'"
  shows "optical_thickness sdp opacity dim' ! i = px (sdp ! i) opacity"
proof -
  from assms have "i < nat (dim' * dim')" by simp
  with assms show ?thesis
    by (simp add: optical_thickness_def nth_optical_thickness_loop length_malloc_binary64)
qed

text \<open>
  Claim C7, as amended, in the binary64 reading. At every pixel \<open>i\<close> of surface-density
  fields of \<open>dim \<cdot> dim\<close> finite cells, with finite opacities, the optical thickness is
  monotonically non-decreasing in the product \<open>\<Sigma> \<cdot> \<kappa>\<close>: a smaller product gives a \<open>\<tau>\<close> that
  is smaller or equal. It saturates: \<open>\<tau>\<close> is exactly \<open>1\<close> for every product of \<open>40\<close> or more
  (so it tends to \<open>1\<close> as the product grows), and exactly \<open>0\<close> for every product of magnitude
  at most \<open>2\<^sup>-\<^sup>5\<^sup>5\<close> (so it tends to \<open>0\<close> as the product tends to \<open>0\<close>).
\<close>

theorem optical_thickness_monotone_saturating:
  assumes "int i < dim' * dim'"
    and "length S1 = nat (dim' * dim')" "length S2 = nat (dim' * dim')"
    and "is_finite (S1 ! i)" "is_finite k1" "is_finite (S2 ! i)" "is_finite k2"
  shows "(valof (S1 ! i) * valof k1 < valof (S2 ! i) * valof k2 \<longrightarrow>
            double_le (optical_thickness S1 k1 dim' ! i) (optical_thickness S2 k2 dim' ! i)) \<and>
         (40 \<le> valof (S1 ! i) * valof k1 \<longrightarrow>
            optical_thickness S1 k1 dim' ! i = Finite False 1) \<and>
         (\<bar>valof (S1 ! i) * valof k1\<bar> \<le> 2 powi (- 55) \<longrightarrow>
            optical_thickness S1 k1 dim' ! i = Finite False 0)"
proof (intro conjI impI)
  assume "valof (S1 ! i) * valof k1 < valof (S2 ! i) * valof k2"
  then have "valof (S1 ! i) * valof k1 \<le> valof (S2 ! i) * valof k2" by simp
  then have "double_le (px (S1 ! i) k1) (px (S2 ! i) k2)"
    by (rule px_mono [OF assms(4-7)])
  then show "double_le (optical_thickness S1 k1 dim' ! i) (optical_thickness S2 k2 dim' ! i)"
    by (simp only: nth_optical_thickness [OF assms(1)])
next
  assume "40 \<le> valof (S1 ! i) * valof k1"
  then have "px (S1 ! i) k1 = Finite False 1" by (rule px_high [OF assms(4,5)])
  then show "optical_thickness S1 k1 dim' ! i = Finite False 1"
    by (simp only: nth_optical_thickness [OF assms(1)])
next
  assume "\<bar>valof (S1 ! i) * valof k1\<bar> \<le> 2 powi (- 55)"
  then have "px (S1 ! i) k1 = Finite False 0" by (rule px_low [OF assms(4,5)])
  then show "optical_thickness S1 k1 dim' ! i = Finite False 0"
    by (simp only: nth_optical_thickness [OF assms(1)])
qed

text \<open>One pixel with opacity \<open>1\<close>: \<open>\<Sigma> = 1\<close> against \<open>\<Sigma> = 2\<close>, then \<open>\<Sigma> = 40\<close> and \<open>\<Sigma> = 0\<close>.\<close>

theorem optical_thickness_monotone_saturating_witness:
  "double_le (optical_thickness [Finite False 1] (Finite False 1) 1 ! 0)
             (optical_thickness [Finite False 2] (Finite False 1) 1 ! 0) \<and>
   optical_thickness [Finite False 40] (Finite False 1) 1 ! 0 = Finite False 1 \<and>
   optical_thickness [Finite False 0] (Finite False 1) 1 ! 0 = Finite False 0"
proof -
  have a: "double_le (optical_thickness [Finite False 1] (Finite False 1) 1 ! 0)
             (optical_thickness [Finite False 2] (Finite False 1) 1 ! 0)"
    using optical_thickness_monotone_saturating
      [of 0 1 "[Finite False 1]" "[Finite False 2]" "Finite False 1" "Finite False 1"]
    by simp
  have b: "optical_thickness [Finite False 40] (Finite False 1) 1 ! 0 = Finite False 1"
    using optical_thickness_monotone_saturating
      [of 0 1 "[Finite False 40]" "[Finite False 40]" "Finite False 1" "Finite False 1"]
    by simp
  have c: "optical_thickness [Finite False 0] (Finite False 1) 1 ! 0 = Finite False 0"
    using optical_thickness_monotone_saturating
      [of 0 1 "[Finite False 0]" "[Finite False 0]" "Finite False 1" "Finite False 1"]
    by simp
  from a b c show ?thesis by blast
qed

text \<open>
  The claim as it was written fails at the products \<open>40 < 50\<close>: both optical thicknesses are
  exactly \<open>1\<close>, and the first is not smaller than the second.
\<close>

theorem optical_thickness_strict_counterexample:
  "valof (Finite False 40) * valof (Finite False 1) < valof (Finite False 50) * valof (Finite False 1) \<and>
   optical_thickness [Finite False 40] (Finite False 1) 1 ! 0 = Finite False 1 \<and>
   optical_thickness [Finite False 50] (Finite False 1) 1 ! 0 = Finite False 1 \<and>
   \<not> double_lt (optical_thickness [Finite False 40] (Finite False 1) 1 ! 0)
                (optical_thickness [Finite False 50] (Finite False 1) 1 ! 0)"
proof -
  have a: "optical_thickness [Finite False 40] (Finite False 1) 1 ! 0 = Finite False 1"
    using px_high [of "Finite False 40" "Finite False 1"]
    by (simp add: nth_optical_thickness)
  have b: "optical_thickness [Finite False 50] (Finite False 1) 1 ! 0 = Finite False 1"
    using px_high [of "Finite False 50" "Finite False 1"]
    by (simp add: nth_optical_thickness)
  show ?thesis unfolding a b by (simp add: double_lt_def)
qed

end
